theory Spec2Isabelle
  imports Main "HOL-Library.Multiset"
begin

section \<open>The train scheduler of A2/mts.c\<close>

text \<open>
  The scheduling core of \<^verbatim>\<open>src/A2/mts.c\<close>: the four ready queues (singly linked,
  sorted lists), the selection function \<^verbatim>\<open>choose_next_idx_full\<close>, the bookkeeping a
  train does when it leaves the track, the roster loader, and the monitor discipline of
  the dispatcher and the train threads.

  Conventions of the embedding.
  \<^item> A linked list of \<^verbatim>\<open>ready_node\<close> is a HOL list; \<^verbatim>\<open>NULL\<close> is \<open>[]\<close>.
  \<^item> C \<^verbatim>\<open>int\<close> and \<^verbatim>\<open>int64_t\<close> values are \<open>int\<close>: train indexes and time stamps
    are only compared, and the two counters that are incremented are bounded by the
    number of trains, itself a C \<^verbatim>\<open>int\<close>.
  \<^item> C \<^verbatim>\<open>int\<close> variables that only ever hold 0 or 1 and are only tested
    (\<^verbatim>\<open>track_in_use\<close>, \<^verbatim>\<open>have_ever_crossed\<close>, \<^verbatim>\<open>my_turn\<close>,
    \<^verbatim>\<open>high_priority\<close>, the result of \<^verbatim>\<open>ready_comes_before\<close>) are \<open>bool\<close>.
  \<^item> \<^verbatim>\<open>malloc\<close> in \<^verbatim>\<open>queue_push\<close> is taken to succeed (the source does not
    check it).
\<close>

subsection \<open>Data\<close>

datatype direction_t = EAST | WEST

record ready_node =
  idx :: int
  ready_ns :: int

type_synonym ready_queue = "ready_node list"

text \<open>The shared scheduling state: the globals of lines 47 to 58.\<close>

record sched =
  east_high :: ready_queue
  east_low :: ready_queue
  west_high :: ready_queue
  west_low :: ready_queue
  track_in_use :: bool
  trains_finished :: int
  have_ever_crossed :: bool
  last_dir :: direction_t
  same_dir_streak :: int

subsection \<open>Ready-queue utilities (lines 393 to 435, 511 to 518)\<close>

definition ready_comes_before :: "int \<Rightarrow> int \<Rightarrow> int \<Rightarrow> int \<Rightarrow> bool" where
  "ready_comes_before idxA nsA idxB nsB =
     (if nsA < nsB then True
      else if nsA > nsB then False
      else idxA < idxB)"

text \<open>
  \<^verbatim>\<open>queue_push\<close> walks the list while the current node exists and the new pair does
  not come before it, and links the new node in front of the node it stopped at.
\<close>

fun queue_push :: "ready_queue \<Rightarrow> int \<Rightarrow> int \<Rightarrow> ready_queue" where
  "queue_push [] i ns = [\<lparr>idx = i, ready_ns = ns\<rparr>]"
| "queue_push (cur # rest) i ns =
     (if \<not> ready_comes_before i ns (idx cur) (ready_ns cur)
      then cur # queue_push rest i ns
      else \<lparr>idx = i, ready_ns = ns\<rparr> # cur # rest)"

text \<open>\<^verbatim>\<open>queue_pop\<close> returns the index of the head (or -1) and the new head pointer.\<close>

fun queue_pop :: "ready_queue \<Rightarrow> int \<times> ready_queue" where
  "queue_pop [] = (-1, [])"
| "queue_pop (n # rest) = (idx n, rest)"

fun peek_idx :: "ready_queue \<Rightarrow> int" where
  "peek_idx [] = -1"
| "peek_idx (h # _) = idx h"

definition INT64_MAX :: int where
  "INT64_MAX = 9223372036854775807"

fun peek_ns :: "ready_queue \<Rightarrow> int" where
  "peek_ns [] = INT64_MAX"
| "peek_ns (h # _) = ready_ns h"

text \<open>
  The order the specification gives a queue: ascending by time stamp, equal time stamps
  by ascending index.
\<close>

definition key_le :: "ready_node \<Rightarrow> ready_node \<Rightarrow> bool" where
  "key_le a b = (ready_ns a < ready_ns b \<or> (ready_ns a = ready_ns b \<and> idx a \<le> idx b))"

definition queue_sorted :: "ready_queue \<Rightarrow> bool" where
  "queue_sorted q = sorted_wrt key_le q"

subsection \<open>Selection (lines 437 to 509)\<close>

definition any_ready :: "sched \<Rightarrow> bool" where
  "any_ready s =
     (east_high s \<noteq> [] \<or> east_low s \<noteq> [] \<or> west_high s \<noteq> [] \<or> west_low s \<noteq> [])"

text \<open>
  \<^verbatim>\<open>choose_from_pair\<close> pops from one of two queues, passed by reference; the model
  returns the index and both queues.
\<close>

definition choose_from_pair :: "ready_queue \<Rightarrow> ready_queue \<Rightarrow> int \<times> ready_queue \<times> ready_queue" where
  "choose_from_pair A B =
     (let ai = peek_idx A; bi = peek_idx B in
      if ai \<ge> 0 \<and> bi \<ge> 0 then
        (if ready_comes_before ai (peek_ns A) bi (peek_ns B)
         then (fst (queue_pop A), snd (queue_pop A), B)
         else (fst (queue_pop B), A, snd (queue_pop B)))
      else if ai \<ge> 0 then (fst (queue_pop A), snd (queue_pop A), B)
      else if bi \<ge> 0 then (fst (queue_pop B), A, snd (queue_pop B))
      else (-1, A, B))"

text \<open>\<^verbatim>\<open>queue_pop(&east_high)\<close> and its three siblings, on the shared state.\<close>

definition pop_east_high :: "sched \<Rightarrow> int \<times> sched" where
  "pop_east_high s = (fst (queue_pop (east_high s)), s\<lparr>east_high := snd (queue_pop (east_high s))\<rparr>)"

definition pop_east_low :: "sched \<Rightarrow> int \<times> sched" where
  "pop_east_low s = (fst (queue_pop (east_low s)), s\<lparr>east_low := snd (queue_pop (east_low s))\<rparr>)"

definition pop_west_high :: "sched \<Rightarrow> int \<times> sched" where
  "pop_west_high s = (fst (queue_pop (west_high s)), s\<lparr>west_high := snd (queue_pop (west_high s))\<rparr>)"

definition pop_west_low :: "sched \<Rightarrow> int \<times> sched" where
  "pop_west_low s = (fst (queue_pop (west_low s)), s\<lparr>west_low := snd (queue_pop (west_low s))\<rparr>)"

text \<open>
  \<^verbatim>\<open>choose_next_idx_full\<close> is three blocks in sequence; each either returns or falls
  through to the next. A block is modelled as an option: \<open>Some\<close> is a
  \<^verbatim>\<open>return\<close>, \<open>None\<close> is falling through.
  First block, lines 463 to 473: the first train ever prefers WEST.
\<close>

definition bootstrap_rule :: "sched \<Rightarrow> (int \<times> sched) option" where
  "bootstrap_rule s =
     (if \<not> have_ever_crossed s then
        (if west_high s \<noteq> [] \<or> west_low s \<noteq> [] then
           (if west_high s \<noteq> [] then Some (pop_west_high s)
            else if west_low s \<noteq> [] then Some (pop_west_low s)
            else None)
         else None)
      else None)"

text \<open>Second block, lines 476 to 499: direction balancing after two same-direction trains.\<close>

definition balancing_rule :: "sched \<Rightarrow> (int \<times> sched) option" where
  "balancing_rule s =
     (let want_opposite = (same_dir_streak s \<ge> 2) in
      if want_opposite then
        (if last_dir s = EAST then
           (if west_high s \<noteq> [] \<or> west_low s \<noteq> [] then
              (if west_high s \<noteq> [] then Some (pop_west_high s)
               else if west_low s \<noteq> [] then Some (pop_west_low s)
               else None)
            else None)
         else
           (if east_high s \<noteq> [] \<or> east_low s \<noteq> [] then
              (if east_high s \<noteq> [] then Some (pop_east_high s)
               else if east_low s \<noteq> [] then Some (pop_east_low s)
               else None)
            else None))
      else None)"

text \<open>Third block, lines 502 to 508: normal priority and tie rules.\<close>

definition normal_rule :: "sched \<Rightarrow> int \<times> sched" where
  "normal_rule s =
     (if east_high s \<noteq> [] \<or> west_high s \<noteq> [] then
        (case choose_from_pair (east_high s) (west_high s) of
           (i, a, b) \<Rightarrow> (i, s\<lparr>east_high := a, west_high := b\<rparr>))
      else if east_low s \<noteq> [] \<or> west_low s \<noteq> [] then
        (case choose_from_pair (east_low s) (west_low s) of
           (i, a, b) \<Rightarrow> (i, s\<lparr>east_low := a, west_low := b\<rparr>))
      else (-1, s))"

definition choose_next_idx_full :: "sched \<Rightarrow> int \<times> sched" where
  "choose_next_idx_full s =
     (case bootstrap_rule s of
        Some r \<Rightarrow> r
      | None \<Rightarrow>
          (case balancing_rule s of
             Some r \<Rightarrow> r
           | None \<Rightarrow> normal_rule s))"

subsection \<open>Trains and the critical sections of a train thread (lines 250 to 310)\<close>

text \<open>
  The fields of \<^verbatim>\<open>train_t\<close> that the program reads; the thread handle and the
  condition variable are left to the transition system below. The field \<^verbatim>\<open>id\<close> is
  \<open>train_id\<close> here.
\<close>

record train_t =
  train_id :: int
  dir :: direction_t
  high_priority :: bool
  loading_time :: int
  crossing_time :: int
  ready_time_ns :: int
  my_turn :: bool

text \<open>
  Lines 268 to 276: under the lock, the train picks its queue by direction and priority
  and pushes itself with its ready time.
\<close>

definition train_enqueue :: "train_t \<Rightarrow> sched \<Rightarrow> sched" where
  "train_enqueue t s =
     (if dir t = EAST then
        (if high_priority t
         then s\<lparr>east_high := queue_push (east_high s) (train_id t) (ready_time_ns t)\<rparr>
         else s\<lparr>east_low := queue_push (east_low s) (train_id t) (ready_time_ns t)\<rparr>)
      else
        (if high_priority t
         then s\<lparr>west_high := queue_push (west_high s) (train_id t) (ready_time_ns t)\<rparr>
         else s\<lparr>west_low := queue_push (west_low s) (train_id t) (ready_time_ns t)\<rparr>))"

text \<open>
  Lines 294 to 306: under the lock, a train that has left the track frees it and updates
  the streak and the counters.
\<close>

definition train_done :: "direction_t \<Rightarrow> sched \<Rightarrow> sched" where
  "train_done d s =
     (let s1 = s\<lparr>track_in_use := False\<rparr>;
          s2 = s1\<lparr>have_ever_crossed := True\<rparr>;
          s3 = (if d = last_dir s2
                then s2\<lparr>same_dir_streak := same_dir_streak s2 + 1\<rparr>
                else s2\<lparr>last_dir := d, same_dir_streak := 1\<rparr>)
      in s3\<lparr>trains_finished := trains_finished s3 + 1\<rparr>)"

text \<open>The initial values of the globals, lines 48 to 58.\<close>

definition initial_sched :: sched where
  "initial_sched =
     \<lparr>east_high = [], east_low = [], west_high = [], west_low = [],
      track_in_use = False, trains_finished = 0, have_ever_crossed = False,
      last_dir = EAST, same_dir_streak = 0\<rparr>"

text \<open>The state after a sequence of completed crossings, given by their directions.\<close>

definition after_crossings :: "direction_t list \<Rightarrow> sched \<Rightarrow> sched" where
  "after_crossings ds s = foldl (\<lambda>s d. train_done d s) s ds"

subsection \<open>Well-formed queues\<close>

text \<open>
  All nodes waiting in the four queues, and the property that their indexes are indexes
  of the train array: \<^verbatim>\<open>parse_line\<close> numbers the trains from 0, and a train pushes
  its own number.
\<close>

definition queued :: "sched \<Rightarrow> ready_node list" where
  "queued s = east_high s @ east_low s @ west_high s @ west_low s"

definition ids_valid :: "int \<Rightarrow> sched \<Rightarrow> bool" where
  "ids_valid n s = list_all (\<lambda>m. 0 \<le> idx m \<and> idx m < n) (queued s)"

text \<open>The strict order on keys: the smaller (time stamp, index) pair.\<close>

definition key_lt :: "ready_node \<Rightarrow> ready_node \<Rightarrow> bool" where
  "key_lt a b = (ready_ns a < ready_ns b \<or> (ready_ns a = ready_ns b \<and> idx a < idx b))"

text \<open>
  The queue a train of a given direction and priority waits in (the choice of lines 269
  to 275), and the four queues being in order.
\<close>

definition queue_of :: "direction_t \<Rightarrow> bool \<Rightarrow> sched \<Rightarrow> ready_queue" where
  "queue_of d high s =
     (if d = EAST then (if high then east_high s else east_low s)
      else (if high then west_high s else west_low s))"

definition queues_sorted :: "sched \<Rightarrow> bool" where
  "queues_sorted s =
     (queue_sorted (east_high s) \<and> queue_sorted (east_low s) \<and>
      queue_sorted (west_high s) \<and> queue_sorted (west_low s))"

subsection \<open>Concrete scheduler states\<close>

text \<open>
  Scenario A of the specification: train 0 is West-Low, train 1 is East-High, both are
  ready at the same instant and nothing has crossed yet.
\<close>

definition scenario_a :: sched where
  "scenario_a =
     initial_sched\<lparr>west_low := [\<lparr>idx = 0, ready_ns = 5\<rparr>],
                    east_high := [\<lparr>idx = 1, ready_ns = 5\<rparr>]\<rparr>"

text \<open>
  Two East crossings have completed; East-High trains 2 and 3, East-Low train 5 and
  West-Low train 4 are waiting.
\<close>

definition scenario_b :: sched where
  "scenario_b =
     \<lparr>east_high = [\<lparr>idx = 2, ready_ns = 1\<rparr>, \<lparr>idx = 3, ready_ns = 1\<rparr>],
      east_low = [\<lparr>idx = 5, ready_ns = 1\<rparr>],
      west_high = [],
      west_low = [\<lparr>idx = 4, ready_ns = 9\<rparr>],
      track_in_use = False, trains_finished = 2, have_ever_crossed = True,
      last_dir = EAST, same_dir_streak = 2\<rparr>"

text \<open>A train as \<^verbatim>\<open>parse_line\<close> leaves it for the line \<^verbatim>\<open>E 1 1\<close> with number 0.\<close>

definition train_zero :: train_t where
  "train_zero =
     \<lparr>train_id = 0, dir = EAST, high_priority = True, loading_time = 1,
      crossing_time = 1, ready_time_ns = -1, my_turn = False\<rparr>"

text \<open>
  Train 0 is East-Low, train 1 is East-High, both became ready at the same instant and
  nothing has crossed yet.
\<close>

definition tie_state :: sched where
  "tie_state =
     initial_sched\<lparr>east_low := [\<lparr>idx = 0, ready_ns = 5\<rparr>],
                    east_high := [\<lparr>idx = 1, ready_ns = 5\<rparr>]\<rparr>"

subsection \<open>Reading the roster (lines 148 to 240)\<close>

text \<open>
  A buffer that \<^verbatim>\<open>fgets\<close> has filled is read by the program as a C string: the
  characters before the first NUL byte (a file may hold NUL bytes; \<^verbatim>\<open>fgets\<close> copies
  them, and both the test \<^verbatim>\<open>*p == '\0'\<close> of line 164 and \<^verbatim>\<open>sscanf\<close> stop at
  the first one).
\<close>

definition c_string :: "string \<Rightarrow> string" where
  "c_string buf = takeWhile (\<lambda>c. c \<noteq> CHR 0x00) buf"

text \<open>
  \<^verbatim>\<open>parse_line\<close> reads a line with the C library's
  \<^verbatim>\<open>sscanf(line, " %c %d %d", &c, &load, &cross)\<close>. The library is not part of
  the program; its behaviour for this format is that of the GNU C library on 64-bit
  Linux, the platform the program is written for: white space in the format skips any
  white space of the input (the characters of \<^verbatim>\<open>isspace\<close>), \<^verbatim>\<open>%c\<close> reads one
  character, and \<^verbatim>\<open>%d\<close> skips white space and reads a decimal integer with an
  optional sign. The number is converted as \<^verbatim>\<open>strtol\<close> converts it, to a 64-bit
  \<^verbatim>\<open>long\<close> that stops at \<^verbatim>\<open>LONG_MIN\<close> and \<^verbatim>\<open>LONG_MAX\<close>, and stored
  through \<^verbatim>\<open>(int)\<close>, which keeps its low 32 bits (the C standard itself leaves the
  result undefined when the number does not fit an \<^verbatim>\<open>int\<close>).
  \<open>sscanf_c_d_d\<close> is \<open>Some\<close> when all three conversions succeed (the call
  returns 3).
\<close>

definition isspace_c :: "char \<Rightarrow> bool" where
  "isspace_c c = (let k = (of_char c :: nat) in k = 32 \<or> (9 \<le> k \<and> k \<le> 13))"

definition isdigit_c :: "char \<Rightarrow> bool" where
  "isdigit_c c = (let k = (of_char c :: nat) in 48 \<le> k \<and> k \<le> 57)"

definition digits_value :: "string \<Rightarrow> int" where
  "digits_value ds = foldl (\<lambda>v c. 10 * v + (int (of_char c) - 48)) 0 ds"

definition LONG_MAX :: int where
  "LONG_MAX = 9223372036854775807"

definition LONG_MIN :: int where
  "LONG_MIN = - 9223372036854775808"

definition strtol_value :: "int \<Rightarrow> int" where
  "strtol_value v = (if v > LONG_MAX then LONG_MAX else if v < LONG_MIN then LONG_MIN else v)"

definition int_cast :: "int \<Rightarrow> int" where
  "int_cast v = (v + 2147483648) mod 4294967296 - 2147483648"

definition scan_int :: "string \<Rightarrow> (int \<times> string) option" where
  "scan_int s =
     (let s1 = dropWhile isspace_c s;
          signed = (s1 \<noteq> [] \<and> (hd s1 = CHR ''-'' \<or> hd s1 = CHR ''+''));
          negative = (s1 \<noteq> [] \<and> hd s1 = CHR ''-'');
          s2 = (if signed then tl s1 else s1);
          ds = takeWhile isdigit_c s2
      in if ds = [] then None
         else Some (int_cast (strtol_value
                      (if negative then - digits_value ds else digits_value ds)),
                    dropWhile isdigit_c s2))"

definition sscanf_c_d_d :: "string \<Rightarrow> (char \<times> int \<times> int) option" where
  "sscanf_c_d_d line =
     (case dropWhile isspace_c line of
        [] \<Rightarrow> None
      | c # r1 \<Rightarrow>
          (case scan_int r1 of
             None \<Rightarrow> None
           | Some (load, r2) \<Rightarrow>
               (case scan_int r2 of
                  None \<Rightarrow> None
                | Some (cross, r3) \<Rightarrow> Some (c, load, cross))))"

text \<open>
  \<^verbatim>\<open>parse_line\<close>, lines 213 to 240: \<open>None\<close> is the return value -1, \<open>Some\<close> is 0
  with the record written to \<^verbatim>\<open>*t\<close>.
\<close>

definition parse_line :: "string \<Rightarrow> int \<Rightarrow> train_t option" where
  "parse_line line n =
     (case sscanf_c_d_d (c_string line) of
        None \<Rightarrow> None
      | Some (c, load, cross) \<Rightarrow>
          if load < 1 \<or> load > 99 \<or> cross < 1 \<or> cross > 99 then None
          else
            (let fill = (\<lambda>high d.
                 Some \<lparr>train_id = n, dir = d, high_priority = high, loading_time = load,
                       crossing_time = cross, ready_time_ns = -1, my_turn = False\<rparr>)
             in if c = CHR ''e'' then fill False EAST
                else if c = CHR ''E'' then fill True EAST
                else if c = CHR ''w'' then fill False WEST
                else if c = CHR ''W'' then fill True WEST
                else None))"

text \<open>
  What \<^verbatim>\<open>fgets(buf, 256, f)\<close> leaves in the buffer: at least one and at most 255
  characters, with a newline, if any, as the last one.
\<close>

definition fgets_buffer :: "string \<Rightarrow> bool" where
  "fgets_buffer buf = (buf \<noteq> [] \<and> length buf \<le> 255 \<and> CHR 0x0A \<notin> set (butlast buf))"

text \<open>
  \<^verbatim>\<open>load_trains\<close>, lines 148 to 205. The file is the list of the buffers that the
  successive calls of \<^verbatim>\<open>fgets\<close> fill (\<open>None\<close> when it cannot be opened). The
  first pass counts the lines that are not blank: a line is blank when, after spaces and
  tabs, its string ends or has a newline.
\<close>

definition blank_line :: "string \<Rightarrow> bool" where
  "blank_line buf =
     (case dropWhile (\<lambda>c. c = CHR '' '' \<or> c = CHR 0x09) (c_string buf) of
        [] \<Rightarrow> True
      | c # _ \<Rightarrow> c = CHR 0x0A)"

definition count_lines :: "string list \<Rightarrow> int" where
  "count_lines lines = int (length (filter (\<lambda>buf. \<not> blank_line buf) lines))"

datatype load_error = Fopen_failed | Calloc_failed | Parse_error int string

text \<open>
  The second pass, lines 186 to 195: while \<^verbatim>\<open>id < count\<close> and there is a line, parse
  it as train \<^verbatim>\<open>id\<close>; a line that does not parse ends the loop with the message
  \<^verbatim>\<open>Parse error on line id + 1\<close> and the line's text. The second pass has no test
  for blank lines: it parses whatever line comes next.
\<close>

fun parse_lines :: "string list \<Rightarrow> int \<Rightarrow> int \<Rightarrow> train_t list \<Rightarrow> load_error + train_t list" where
  "parse_lines [] n cnt ts = Inr ts"
| "parse_lines (buf # rest) n cnt ts =
     (if n < cnt then
        (case parse_line buf n of
           None \<Rightarrow> Inl (Parse_error (n + 1) (c_string buf))
         | Some t \<Rightarrow> parse_lines rest (n + 1) cnt (ts @ [t]))
      else Inr ts)"

text \<open>
  The result \<open>Inr ts\<close> is the return value 0 with \<^verbatim>\<open>n_trains\<close> the length of
  \<open>ts\<close> and \<^verbatim>\<open>trains\<close> holding \<open>ts\<close> (\<^verbatim>\<open>NULL\<close>, nothing allocated, when the
  count is 0); \<open>Inl\<close> is the return value -1.
\<close>

definition load_trains :: "string list option \<Rightarrow> bool \<Rightarrow> load_error + train_t list" where
  "load_trains file calloc_ok =
     (case file of
        None \<Rightarrow> Inl Fopen_failed
      | Some lines \<Rightarrow>
          (let cnt = count_lines lines in
           if cnt = 0 then Inr []
           else if \<not> calloc_ok then Inl Calloc_failed
           else parse_lines lines 0 cnt []))"

subsection \<open>The dispatcher and the main program (lines 86 to 140, 322 to 342)\<close>

text \<open>
  One pass of the dispatcher's outer loop, from a state in which it holds the lock: it
  leaves the loop when all trains have finished, waits on \<^verbatim>\<open>ready_cv\<close> while no
  train is ready or the track is in use, and otherwise selects; with a selection it
  marks the track in use and gives the turn to the selected train.
\<close>

datatype dispatcher_step = Exit | Wait | Grant int sched | No_selection sched

definition dispatcher_main_step :: "int \<Rightarrow> sched \<Rightarrow> dispatcher_step" where
  "dispatcher_main_step n_trains s =
     (if \<not> trains_finished s < n_trains then Exit
      else if (\<not> any_ready s \<or> track_in_use s) \<and> trains_finished s < n_trains then Wait
      else if trains_finished s \<ge> n_trains then Exit
      else
        (case choose_next_idx_full s of
           (i, s') \<Rightarrow> if i \<ge> 0 then Grant i (s'\<lparr>track_in_use := True\<rparr>) else No_selection s'))"

text \<open>
  What \<^verbatim>\<open>main\<close> meets outside the program: its argument count, whether
  \<^verbatim>\<open>output.txt\<close> opens, the input file, whether \<^verbatim>\<open>calloc\<close> and the creation of
  the dispatcher thread succeed, and the first train thread whose creation fails, if any.
\<close>

record environment =
  argc :: int
  output_opens :: bool
  input_file :: "string list option"
  calloc_succeeds :: bool
  dispatcher_starts :: bool
  worker_start_fails_at :: "nat option"

text \<open>
  The value \<^verbatim>\<open>main\<close> returns, with the threads it has created by then. Between
  creating and returning it joins the threads, so it returns when they have ended.
\<close>

record main_result =
  exit_code :: int
  dispatcher_created :: bool
  workers_created :: nat

definition main :: "environment \<Rightarrow> main_result" where
  "main e =
     (if argc e \<noteq> 2 then \<lparr>exit_code = 1, dispatcher_created = False, workers_created = 0\<rparr>
      else if \<not> output_opens e
      then \<lparr>exit_code = 1, dispatcher_created = False, workers_created = 0\<rparr>
      else
        (case load_trains (input_file e) (calloc_succeeds e) of
           Inl err \<Rightarrow> \<lparr>exit_code = 1, dispatcher_created = False, workers_created = 0\<rparr>
         | Inr trains \<Rightarrow>
             if \<not> dispatcher_starts e
             then \<lparr>exit_code = 1, dispatcher_created = False, workers_created = 0\<rparr>
             else
               (case worker_start_fails_at e of
                  None \<Rightarrow>
                    \<lparr>exit_code = 0, dispatcher_created = True, workers_created = length trains\<rparr>
                | Some i \<Rightarrow>
                    if i < length trains
                    then \<lparr>exit_code = 1, dispatcher_created = True, workers_created = i\<rparr>
                    else \<lparr>exit_code = 0, dispatcher_created = True,
                          workers_created = length trains\<rparr>)))"

text \<open>
  Rosters: one whose second line has no direction code, one that ends with a blank line,
  two with a blank line before their last line, and one of blank lines only; and an
  environment in which nothing outside the program fails.
\<close>

definition roster_bad :: "string list" where
  "roster_bad = [''E 1 1\<newline>'', ''x 2 2\<newline>'']"

definition roster_trailing_blank :: "string list" where
  "roster_trailing_blank = [''E 1 1\<newline>'', ''\<newline>'']"

definition roster_blank_then_bad :: "string list" where
  "roster_blank_then_bad = [''E 1 1\<newline>'', ''\<newline>'', ''x 2 2\<newline>'']"

definition roster_blank_inside :: "string list" where
  "roster_blank_inside = [''E 1 1\<newline>'', ''\<newline>'', ''w 2 2\<newline>'']"

definition roster_blank :: "string list" where
  "roster_blank = [''\<newline>'', ''  \<newline>'']"

definition plain_environment :: "string list \<Rightarrow> environment" where
  "plain_environment lines =
     \<lparr>argc = 2, output_opens = True, input_file = Some lines, calloc_succeeds = True,
      dispatcher_starts = True, worker_start_fails_at = None\<rparr>"

subsection \<open>The threads as a transition system\<close>

text \<open>
  Every access to the shared scheduling state and to \<^verbatim>\<open>my_turn\<close> happens with
  \<^verbatim>\<open>scheduling_mutex\<close> held, so a run of the program is an interleaving of the
  sections that the threads execute with the lock held. A train thread is at one of four
  places: \<open>Loading\<close> (before it takes the lock at line 268), \<open>Waiting\<close> (in the
  loop of lines 278 to 280, after it has pushed itself), \<open>Crossing\<close> (from the unlock
  of line 282 to the lock of line 294, where it is on the main track) and \<open>Finished\<close>
  (after line 308).
\<close>

datatype phase = Loading | Waiting | Crossing | Finished

record system =
  shared :: sched
  trains :: "train_t list"
  pcs :: "phase list"

definition initial_system :: "train_t list \<Rightarrow> system" where
  "initial_system ts =
     \<lparr>shared = initial_sched, trains = ts, pcs = replicate (length ts) Loading\<rparr>"

text \<open>
  The steps. \<open>ready\<close>: lines 260 to 277, the train stamps its ready time (any value of
  the clock), pushes itself and starts waiting. \<open>enter\<close>: lines 278 to 282, a waiting
  train finds \<^verbatim>\<open>my_turn\<close> set and goes onto the track. \<open>leave\<close>: lines 294 to 308.
  \<open>dispatch\<close> and \<open>no_selection\<close>: one pass of the dispatcher's loop that selects
  (lines 333 to 338); passes that wait or exit change nothing. A wait on a condition
  variable is a step that is enabled when its condition holds, so every schedule of the
  threads, with spurious wake-ups, is a run of this system.
\<close>

inductive step :: "system \<Rightarrow> system \<Rightarrow> bool" where
  ready:
    "i < length (trains st) \<Longrightarrow> pcs st ! i = Loading \<Longrightarrow>
     t = (trains st ! i)\<lparr>ready_time_ns := ns\<rparr> \<Longrightarrow>
     step st (st\<lparr>shared := train_enqueue t (shared st),
                 trains := (trains st)[i := t],
                 pcs := (pcs st)[i := Waiting]\<rparr>)"
| enter:
    "i < length (trains st) \<Longrightarrow> pcs st ! i = Waiting \<Longrightarrow> my_turn (trains st ! i) \<Longrightarrow>
     step st (st\<lparr>pcs := (pcs st)[i := Crossing]\<rparr>)"
| leave:
    "i < length (trains st) \<Longrightarrow> pcs st ! i = Crossing \<Longrightarrow>
     step st (st\<lparr>shared := train_done (dir (trains st ! i)) (shared st),
                 pcs := (pcs st)[i := Finished]\<rparr>)"
| dispatch:
    "dispatcher_main_step (int (length (trains st))) (shared st) = Grant k s' \<Longrightarrow>
     step st (st\<lparr>shared := s',
                 trains := (trains st)[nat k := (trains st ! nat k)\<lparr>my_turn := True\<rparr>]\<rparr>)"
| no_selection:
    "dispatcher_main_step (int (length (trains st))) (shared st) = No_selection s' \<Longrightarrow>
     step st (st\<lparr>shared := s'\<rparr>)"

inductive reachable :: "train_t list \<Rightarrow> system \<Rightarrow> bool" where
  start: "reachable ts (initial_system ts)"
| next_step: "reachable ts st \<Longrightarrow> step st st' \<Longrightarrow> reachable ts st'"

text \<open>
  Train \<open>i\<close> holds the track: it has been given its turn and has not yet released the
  track.
\<close>

definition holder :: "system \<Rightarrow> nat \<Rightarrow> bool" where
  "holder st i = (my_turn (trains st ! i) \<and> pcs st ! i \<noteq> Finished)"

text \<open>The invariant of the runs from a loaded roster.\<close>

definition waiting_ok :: "system \<Rightarrow> bool" where
  "waiting_ok st =
     (\<forall>m \<in> set (queued (shared st)).
        0 \<le> idx m \<and> idx m < int (length (trains st)) \<and>
        pcs st ! nat (idx m) = Waiting \<and> \<not> my_turn (trains st ! nat (idx m)))"

definition track_ok :: "system \<Rightarrow> bool" where
  "track_ok st =
     (if track_in_use (shared st)
      then (\<exists>i < length (trains st). holder st i \<and>
              (\<forall>j < length (trains st). holder st j \<longrightarrow> j = i))
      else (\<forall>i < length (trains st). \<not> holder st i))"

definition system_inv :: "system \<Rightarrow> bool" where
  "system_inv st =
     (length (pcs st) = length (trains st) \<and>
      (\<forall>i < length (trains st). train_id (trains st ! i) = int i) \<and>
      waiting_ok st \<and>
      distinct (map idx (queued (shared st))) \<and>
      (\<forall>i < length (trains st).
         (pcs st ! i = Loading \<longrightarrow> \<not> my_turn (trains st ! i)) \<and>
         (pcs st ! i = Crossing \<longrightarrow> my_turn (trains st ! i))) \<and>
      track_ok st)"

text \<open>What \<^verbatim>\<open>load_trains\<close> leaves in the array: train \<open>i\<close> has number \<open>i\<close> and no turn.\<close>

definition roster_ok :: "train_t list \<Rightarrow> bool" where
  "roster_ok ts = (\<forall>i < length ts. train_id (ts ! i) = int i \<and> \<not> my_turn (ts ! i))"

text \<open>The state in which the only train of a one-line roster is on the track.\<close>

definition crossing_system :: system where
  "crossing_system =
     \<lparr>shared = initial_sched\<lparr>track_in_use := True\<rparr>,
      trains = [train_zero\<lparr>ready_time_ns := 5, my_turn := True\<rparr>],
      pcs = [Crossing]\<rparr>"

text \<open>The state in which the only train of a one-line roster waits in its queue.\<close>

definition waiting_system :: system where
  "waiting_system =
     \<lparr>shared = initial_sched\<lparr>east_high := [\<lparr>idx = 0, ready_ns = 5\<rparr>]\<rparr>,
      trains = [train_zero\<lparr>ready_time_ns := 5\<rparr>],
      pcs = [Waiting]\<rparr>"

subsection \<open>Lemmas on the queues\<close>

lemma key_le_refl: "key_le a a"
  by (simp add: key_le_def)

lemma key_le_trans: "key_le a b \<Longrightarrow> key_le b c \<Longrightarrow> key_le a c"
  by (auto simp: key_le_def)

lemma comes_before_key_le:
  "ready_comes_before i ns (idx c) (ready_ns c) \<Longrightarrow> key_le \<lparr>idx = i, ready_ns = ns\<rparr> c"
  by (auto simp: ready_comes_before_def key_le_def split: if_splits)

lemma not_comes_before_key_le:
  "\<not> ready_comes_before i ns (idx c) (ready_ns c) \<Longrightarrow> key_le c \<lparr>idx = i, ready_ns = ns\<rparr>"
  by (auto simp: ready_comes_before_def key_le_def split: if_splits)

lemma set_queue_push:
  "set (queue_push q i ns) = insert \<lparr>idx = i, ready_ns = ns\<rparr> (set q)"
  by (induction q) auto

lemma mset_queue_push:
  "mset (queue_push q i ns) = add_mset \<lparr>idx = i, ready_ns = ns\<rparr> (mset q)"
  by (induction q) auto

lemma sorted_queue_push:
  "queue_sorted q \<Longrightarrow> queue_sorted (queue_push q i ns)"
proof (induction q)
  case Nil
  then show ?case by (simp add: queue_sorted_def)
next
  case (Cons c q)
  have tail: "queue_sorted q"
    using Cons.prems by (simp add: queue_sorted_def)
  have above: "\<forall>m \<in> set q. key_le c m"
    using Cons.prems by (simp add: queue_sorted_def)
  show ?case
  proof (cases "ready_comes_before i ns (idx c) (ready_ns c)")
    case True
    then have first: "key_le \<lparr>idx = i, ready_ns = ns\<rparr> c"
      by (rule comes_before_key_le)
    then have "\<forall>m \<in> set q. key_le \<lparr>idx = i, ready_ns = ns\<rparr> m"
      using above key_le_trans by blast
    with True first Cons.prems show ?thesis
      by (simp add: queue_sorted_def)
  next
    case False
    then have "key_le c \<lparr>idx = i, ready_ns = ns\<rparr>"
      by (rule not_comes_before_key_le)
    then have "\<forall>m \<in> set (queue_push q i ns). key_le c m"
      using above by (simp add: set_queue_push)
    with False Cons.IH [OF tail] show ?thesis
      by (simp add: queue_sorted_def)
  qed
qed

lemma sorted_head_least:
  "queue_sorted q \<Longrightarrow> q \<noteq> [] \<Longrightarrow> m \<in> set q \<Longrightarrow> key_le (hd q) m"
  by (cases q) (auto simp: queue_sorted_def key_le_refl)

lemma sorted_tail: "queue_sorted q \<Longrightarrow> queue_sorted (tl q)"
  by (cases q) (auto simp: queue_sorted_def)

lemma queue_pop_nonempty: "q \<noteq> [] \<Longrightarrow> queue_pop q = (idx (hd q), tl q)"
  by (cases q) auto

subsection \<open>The ready queue is kept in order\<close>

text \<open>
  Claim C6. Pushing a pair into a queue that is in ascending order by
  (time stamp, index) gives a queue in that order holding the old nodes and the new
  pair; popping the empty queue gives -1; popping a non-empty ordered queue returns the
  index of a node that is least in that order, and leaves the other nodes, in order.
\<close>

theorem queue_push_pop_ordered:
  "queue_sorted q \<Longrightarrow>
     queue_sorted (queue_push q i ns) \<and>
     mset (queue_push q i ns) = add_mset \<lparr>idx = i, ready_ns = ns\<rparr> (mset q) \<and>
     queue_pop [] = (-1, []) \<and>
     (q \<noteq> [] \<longrightarrow>
        fst (queue_pop q) = idx (hd q) \<and> hd q \<in> set q \<and>
        (\<forall>m \<in> set q. key_le (hd q) m) \<and>
        mset (snd (queue_pop q)) = mset q - {#hd q#} \<and>
        queue_sorted (snd (queue_pop q)))"
proof (intro conjI impI)
  assume s: "queue_sorted q"
  show "queue_sorted (queue_push q i ns)"
    using s by (rule sorted_queue_push)
  show "mset (queue_push q i ns) = add_mset \<lparr>idx = i, ready_ns = ns\<rparr> (mset q)"
    by (rule mset_queue_push)
  show "queue_pop [] = (-1, [])"
    by simp
next
  assume s: "queue_sorted q" and ne: "q \<noteq> []"
  show "fst (queue_pop q) = idx (hd q)"
    using ne by (simp add: queue_pop_nonempty)
  show "hd q \<in> set q"
    using ne by simp
  show "\<forall>m \<in> set q. key_le (hd q) m"
    using s ne sorted_head_least by blast
  show "mset (snd (queue_pop q)) = mset q - {#hd q#}"
    using ne by (cases q) auto
  show "queue_sorted (snd (queue_pop q))"
    using s ne by (simp add: queue_pop_nonempty sorted_tail)
qed

theorem queue_push_pop_ordered_witness:
  "queue_sorted [\<lparr>idx = 0, ready_ns = 5\<rparr>, \<lparr>idx = 2, ready_ns = 5\<rparr>, \<lparr>idx = 1, ready_ns = 7\<rparr>] \<and>
   queue_push [\<lparr>idx = 0, ready_ns = 5\<rparr>, \<lparr>idx = 2, ready_ns = 5\<rparr>, \<lparr>idx = 1, ready_ns = 7\<rparr>] 3 5 =
     [\<lparr>idx = 0, ready_ns = 5\<rparr>, \<lparr>idx = 2, ready_ns = 5\<rparr>, \<lparr>idx = 3, ready_ns = 5\<rparr>, \<lparr>idx = 1, ready_ns = 7\<rparr>] \<and>
   queue_sorted (queue_push [\<lparr>idx = 0, ready_ns = 5\<rparr>, \<lparr>idx = 2, ready_ns = 5\<rparr>, \<lparr>idx = 1, ready_ns = 7\<rparr>] 3 5) \<and>
   queue_pop [\<lparr>idx = 0, ready_ns = 5\<rparr>, \<lparr>idx = 2, ready_ns = 5\<rparr>, \<lparr>idx = 1, ready_ns = 7\<rparr>] =
     (0, [\<lparr>idx = 2, ready_ns = 5\<rparr>, \<lparr>idx = 1, ready_ns = 7\<rparr>])"
proof -
  have h: "queue_sorted [\<lparr>idx = 0, ready_ns = 5\<rparr>, \<lparr>idx = 2, ready_ns = 5\<rparr>, \<lparr>idx = 1, ready_ns = 7\<rparr>]"
    by (simp add: queue_sorted_def key_le_def)
  show ?thesis
    using h queue_push_pop_ordered [OF h, of 3 5]
    by (simp add: ready_comes_before_def)
qed

subsection \<open>Lemmas on the selection\<close>

lemma ids_valid_heads:
  assumes "ids_valid n s"
  shows "east_high s \<noteq> [] \<Longrightarrow> 0 \<le> idx (hd (east_high s)) \<and> idx (hd (east_high s)) < n"
    and "east_low s \<noteq> [] \<Longrightarrow> 0 \<le> idx (hd (east_low s)) \<and> idx (hd (east_low s)) < n"
    and "west_high s \<noteq> [] \<Longrightarrow> 0 \<le> idx (hd (west_high s)) \<and> idx (hd (west_high s)) < n"
    and "west_low s \<noteq> [] \<Longrightarrow> 0 \<le> idx (hd (west_low s)) \<and> idx (hd (west_low s)) < n"
  using assms by (auto simp: ids_valid_def queued_def list_all_iff)

lemma peek_idx_nonempty: "q \<noteq> [] \<Longrightarrow> peek_idx q = idx (hd q)"
  by (cases q) auto

lemma peek_ns_nonempty: "q \<noteq> [] \<Longrightarrow> peek_ns q = ready_ns (hd q)"
  by (cases q) auto

lemma comes_before_key_lt:
  "ready_comes_before (idx a) (ready_ns a) (idx b) (ready_ns b) = key_lt a b"
  by (auto simp: ready_comes_before_def key_lt_def)

text \<open>What \<^verbatim>\<open>choose_from_pair\<close> does when the heads it sees carry valid indexes.\<close>

lemma choose_from_pair_both:
  "A \<noteq> [] \<Longrightarrow> B \<noteq> [] \<Longrightarrow> 0 \<le> idx (hd A) \<Longrightarrow> 0 \<le> idx (hd B) \<Longrightarrow>
   choose_from_pair A B =
     (if key_lt (hd A) (hd B) then (idx (hd A), tl A, B) else (idx (hd B), A, tl B))"
  by (simp add: choose_from_pair_def peek_idx_nonempty peek_ns_nonempty
      queue_pop_nonempty comes_before_key_lt)

lemma choose_from_pair_left:
  "A \<noteq> [] \<Longrightarrow> 0 \<le> idx (hd A) \<Longrightarrow> choose_from_pair A [] = (idx (hd A), tl A, [])"
  by (simp add: choose_from_pair_def peek_idx_nonempty queue_pop_nonempty)

lemma choose_from_pair_right:
  "B \<noteq> [] \<Longrightarrow> 0 \<le> idx (hd B) \<Longrightarrow> choose_from_pair [] B = (idx (hd B), [], tl B)"
  by (simp add: choose_from_pair_def peek_idx_nonempty queue_pop_nonempty)

lemma choose_from_pair_empty: "choose_from_pair [] [] = (-1, [], [])"
  by (simp add: choose_from_pair_def)

lemma pop_simps:
  "east_high s \<noteq> [] \<Longrightarrow> pop_east_high s = (idx (hd (east_high s)), s\<lparr>east_high := tl (east_high s)\<rparr>)"
  "east_low s \<noteq> [] \<Longrightarrow> pop_east_low s = (idx (hd (east_low s)), s\<lparr>east_low := tl (east_low s)\<rparr>)"
  "west_high s \<noteq> [] \<Longrightarrow> pop_west_high s = (idx (hd (west_high s)), s\<lparr>west_high := tl (west_high s)\<rparr>)"
  "west_low s \<noteq> [] \<Longrightarrow> pop_west_low s = (idx (hd (west_low s)), s\<lparr>west_low := tl (west_low s)\<rparr>)"
  by (simp_all add: pop_east_high_def pop_east_low_def pop_west_high_def pop_west_low_def
      queue_pop_nonempty)

lemma normal_rule_closed:
  assumes ids: "ids_valid n s"
  shows "normal_rule s =
     (if east_high s \<noteq> [] \<and> west_high s \<noteq> [] then
        (if key_lt (hd (east_high s)) (hd (west_high s))
         then (idx (hd (east_high s)), s\<lparr>east_high := tl (east_high s)\<rparr>)
         else (idx (hd (west_high s)), s\<lparr>west_high := tl (west_high s)\<rparr>))
      else if east_high s \<noteq> [] then (idx (hd (east_high s)), s\<lparr>east_high := tl (east_high s)\<rparr>)
      else if west_high s \<noteq> [] then (idx (hd (west_high s)), s\<lparr>west_high := tl (west_high s)\<rparr>)
      else if east_low s \<noteq> [] \<and> west_low s \<noteq> [] then
        (if key_lt (hd (east_low s)) (hd (west_low s))
         then (idx (hd (east_low s)), s\<lparr>east_low := tl (east_low s)\<rparr>)
         else (idx (hd (west_low s)), s\<lparr>west_low := tl (west_low s)\<rparr>))
      else if east_low s \<noteq> [] then (idx (hd (east_low s)), s\<lparr>east_low := tl (east_low s)\<rparr>)
      else if west_low s \<noteq> [] then (idx (hd (west_low s)), s\<lparr>west_low := tl (west_low s)\<rparr>)
      else (-1, s))"
  unfolding normal_rule_def
  using ids_valid_heads [OF ids]
  by (simp add: choose_from_pair_both choose_from_pair_left choose_from_pair_right)

subsection \<open>The bootstrap rule\<close>

text \<open>
  Claim C2. While no train has ever crossed and a West queue is non-empty, the selection
  pops the head of West-High if that queue is non-empty and the head of West-Low
  otherwise, whatever the East queues hold. Once \<^verbatim>\<open>have_ever_crossed\<close> is set the
  first block is skipped: the selection is that of the balancing and normal blocks
  alone. The flag is set by every completed crossing and no operation on the shared
  state clears it.
\<close>

theorem bootstrap_prefers_west:
  "(\<not> have_ever_crossed s \<and> (west_high s \<noteq> [] \<or> west_low s \<noteq> []) \<longrightarrow>
      choose_next_idx_full s =
        (if west_high s \<noteq> []
         then (idx (hd (west_high s)), s\<lparr>west_high := tl (west_high s)\<rparr>)
         else (idx (hd (west_low s)), s\<lparr>west_low := tl (west_low s)\<rparr>))) \<and>
   (have_ever_crossed s \<longrightarrow>
      choose_next_idx_full s =
        (case balancing_rule s of Some r \<Rightarrow> r | None \<Rightarrow> normal_rule s) \<and>
      have_ever_crossed (snd (choose_next_idx_full s)) \<and>
      have_ever_crossed (train_enqueue t s)) \<and>
   have_ever_crossed (train_done d s)"
proof (intro conjI impI)
  assume "\<not> have_ever_crossed s \<and> (west_high s \<noteq> [] \<or> west_low s \<noteq> [])"
  then show "choose_next_idx_full s =
        (if west_high s \<noteq> []
         then (idx (hd (west_high s)), s\<lparr>west_high := tl (west_high s)\<rparr>)
         else (idx (hd (west_low s)), s\<lparr>west_low := tl (west_low s)\<rparr>))"
    by (auto simp: choose_next_idx_full_def bootstrap_rule_def pop_simps)
next
  assume h: "have_ever_crossed s"
  then have none: "bootstrap_rule s = None"
    by (simp add: bootstrap_rule_def)
  then show eq: "choose_next_idx_full s =
      (case balancing_rule s of Some r \<Rightarrow> r | None \<Rightarrow> normal_rule s)"
    by (simp add: choose_next_idx_full_def)
  show "have_ever_crossed (snd (choose_next_idx_full s))"
    using h unfolding eq
    by (auto simp: balancing_rule_def normal_rule_def Let_def pop_east_high_def
        pop_east_low_def pop_west_high_def pop_west_low_def split: prod.splits)
  show "have_ever_crossed (train_enqueue t s)"
    using h by (simp add: train_enqueue_def)
next
  show "have_ever_crossed (train_done d s)"
    by (simp add: train_done_def Let_def)
qed

theorem bootstrap_prefers_west_witness:
  "\<not> have_ever_crossed scenario_a \<and> west_low scenario_a \<noteq> [] \<and>
   east_high scenario_a \<noteq> [] \<and>
   fst (choose_next_idx_full scenario_a) = 0 \<and>
   have_ever_crossed scenario_b \<and> west_low scenario_b \<noteq> [] \<and>
   fst (choose_next_idx_full (scenario_b\<lparr>same_dir_streak := 1\<rparr>)) = 2"
  using bootstrap_prefers_west [of scenario_a]
    bootstrap_prefers_west [of "scenario_b\<lparr>same_dir_streak := 1\<rparr>"]
  by (simp add: scenario_a_def scenario_b_def initial_sched_def balancing_rule_def
      normal_rule_def choose_from_pair_def)

subsection \<open>The balancing rule\<close>

text \<open>
  Claim C3. When the bootstrap rule does not apply (a train has crossed, or both West
  queues are empty) and the streak is at least 2, the selection looks at the queues of
  the direction opposite to \<^verbatim>\<open>last_dir\<close>, High first and then Low, and pops the head
  of the first that is non-empty, without comparing keys or priorities with the other
  direction; when both are empty the result is that of the normal block.
\<close>

theorem balancing_picks_opposite:
  assumes "have_ever_crossed s \<or> (west_high s = [] \<and> west_low s = [])"
    and "same_dir_streak s \<ge> 2"
  shows "choose_next_idx_full s =
     (if last_dir s = EAST then
        (if west_high s \<noteq> [] then (idx (hd (west_high s)), s\<lparr>west_high := tl (west_high s)\<rparr>)
         else if west_low s \<noteq> [] then (idx (hd (west_low s)), s\<lparr>west_low := tl (west_low s)\<rparr>)
         else normal_rule s)
      else
        (if east_high s \<noteq> [] then (idx (hd (east_high s)), s\<lparr>east_high := tl (east_high s)\<rparr>)
         else if east_low s \<noteq> [] then (idx (hd (east_low s)), s\<lparr>east_low := tl (east_low s)\<rparr>)
         else normal_rule s))"
proof -
  have "bootstrap_rule s = None"
    using assms(1) by (auto simp: bootstrap_rule_def)
  then have "choose_next_idx_full s =
      (case balancing_rule s of Some r \<Rightarrow> r | None \<Rightarrow> normal_rule s)"
    by (simp add: choose_next_idx_full_def)
  then show ?thesis
    using assms(2) by (simp add: balancing_rule_def pop_simps)
qed

theorem balancing_picks_opposite_witness:
  "have_ever_crossed scenario_b \<and> same_dir_streak scenario_b \<ge> 2 \<and>
   last_dir scenario_b = EAST \<and> east_high scenario_b \<noteq> [] \<and>
   choose_next_idx_full scenario_b = (4, scenario_b\<lparr>west_low := []\<rparr>)"
proof -
  have a: "have_ever_crossed scenario_b \<or> (west_high scenario_b = [] \<and> west_low scenario_b = [])"
    by (simp add: scenario_b_def)
  have b: "same_dir_streak scenario_b \<ge> 2"
    by (simp add: scenario_b_def)
  show ?thesis
    using balancing_picks_opposite [OF a b] by (simp add: scenario_b_def)
qed

subsection \<open>The normal rule\<close>

text \<open>
  Claim C4. When neither override applies and the queued indexes are indexes of trains,
  the selection pops from a High queue whenever one of them is non-empty: the head with
  the smaller (time stamp, index) key when both are non-empty, the only head otherwise;
  the Low queues are left as they are. Only when both High queues are empty does it do
  the same on the two Low queues. So a waiting High train of either direction goes
  before every waiting Low train.
\<close>

theorem normal_rule_priority_then_key:
  assumes ids: "ids_valid n s"
    and no_bootstrap: "have_ever_crossed s \<or> (west_high s = [] \<and> west_low s = [])"
    and no_balancing: "same_dir_streak s < 2
        \<or> (last_dir s = EAST \<and> west_high s = [] \<and> west_low s = [])
        \<or> (last_dir s = WEST \<and> east_high s = [] \<and> east_low s = [])"
  shows "choose_next_idx_full s =
     (if east_high s \<noteq> [] \<and> west_high s \<noteq> [] then
        (if key_lt (hd (east_high s)) (hd (west_high s))
         then (idx (hd (east_high s)), s\<lparr>east_high := tl (east_high s)\<rparr>)
         else (idx (hd (west_high s)), s\<lparr>west_high := tl (west_high s)\<rparr>))
      else if east_high s \<noteq> [] then (idx (hd (east_high s)), s\<lparr>east_high := tl (east_high s)\<rparr>)
      else if west_high s \<noteq> [] then (idx (hd (west_high s)), s\<lparr>west_high := tl (west_high s)\<rparr>)
      else if east_low s \<noteq> [] \<and> west_low s \<noteq> [] then
        (if key_lt (hd (east_low s)) (hd (west_low s))
         then (idx (hd (east_low s)), s\<lparr>east_low := tl (east_low s)\<rparr>)
         else (idx (hd (west_low s)), s\<lparr>west_low := tl (west_low s)\<rparr>))
      else if east_low s \<noteq> [] then (idx (hd (east_low s)), s\<lparr>east_low := tl (east_low s)\<rparr>)
      else if west_low s \<noteq> [] then (idx (hd (west_low s)), s\<lparr>west_low := tl (west_low s)\<rparr>)
      else (-1, s))"
proof -
  have boot: "bootstrap_rule s = None"
    using no_bootstrap by (auto simp: bootstrap_rule_def)
  have bal: "balancing_rule s = None"
    using no_balancing by (auto simp: balancing_rule_def)
  have "choose_next_idx_full s = normal_rule s"
    by (simp add: choose_next_idx_full_def boot bal)
  then show ?thesis
    by (simp only: normal_rule_closed [OF ids])
qed

theorem normal_rule_priority_then_key_witness:
  "ids_valid 6 (scenario_b\<lparr>same_dir_streak := 1\<rparr>) \<and>
   have_ever_crossed (scenario_b\<lparr>same_dir_streak := 1\<rparr>) \<and>
   same_dir_streak (scenario_b\<lparr>same_dir_streak := 1\<rparr>) < 2 \<and>
   west_low scenario_b \<noteq> [] \<and> east_low scenario_b \<noteq> [] \<and>
   choose_next_idx_full (scenario_b\<lparr>same_dir_streak := 1\<rparr>) =
     (2, scenario_b\<lparr>same_dir_streak := 1, east_high := [\<lparr>idx = 3, ready_ns = 1\<rparr>]\<rparr>)"
proof -
  let ?s = "scenario_b\<lparr>same_dir_streak := 1\<rparr>"
  have a: "ids_valid 6 ?s"
    by (simp add: ids_valid_def queued_def scenario_b_def)
  have b: "have_ever_crossed ?s \<or> (west_high ?s = [] \<and> west_low ?s = [])"
    by (simp add: scenario_b_def)
  have c: "same_dir_streak ?s < 2
        \<or> (last_dir ?s = EAST \<and> west_high ?s = [] \<and> west_low ?s = [])
        \<or> (last_dir ?s = WEST \<and> east_high ?s = [] \<and> east_low ?s = [])"
    by simp
  show ?thesis
    using a normal_rule_priority_then_key [OF a b c] by (simp add: scenario_b_def)
qed

subsection \<open>The selection finds a train whenever one is waiting\<close>

text \<open>
  Claim C8. With the queued indexes being indexes of trains (between 0 and the number
  of trains), the selection returns -1 exactly when all four queues are empty, and under
  the dispatcher's guard \<^verbatim>\<open>any_ready\<close> it returns the index of a train, so the test
  \<^verbatim>\<open>idx >= 0\<close> of the dispatcher always succeeds.
\<close>

theorem choose_none_only_when_empty:
  assumes ids: "ids_valid n s"
  shows "(fst (choose_next_idx_full s) = -1 \<longleftrightarrow> \<not> any_ready s) \<and>
     (any_ready s \<longrightarrow> 0 \<le> fst (choose_next_idx_full s) \<and> fst (choose_next_idx_full s) < n)"
proof -
  note heads = ids_valid_heads [OF ids]
  have normal: "any_ready s \<Longrightarrow> 0 \<le> fst (normal_rule s) \<and> fst (normal_rule s) < n"
    unfolding normal_rule_def any_ready_def using heads
    by (cases "east_high s = []"; cases "west_high s = []";
        cases "east_low s = []"; cases "west_low s = []")
       (simp_all add: choose_from_pair_both choose_from_pair_left choose_from_pair_right)
  have ready: "0 \<le> fst (choose_next_idx_full s) \<and> fst (choose_next_idx_full s) < n"
    if r: "any_ready s"
  proof (cases "bootstrap_rule s")
    case (Some r1)
    then show ?thesis
      using heads
      by (auto simp: choose_next_idx_full_def bootstrap_rule_def pop_simps split: if_splits)
  next
    case None
    show ?thesis
    proof (cases "balancing_rule s")
      case (Some r2)
      then show ?thesis
        using heads None
        by (auto simp: choose_next_idx_full_def balancing_rule_def pop_simps split: if_splits)
    next
      case None2: None
      show ?thesis
        using normal [OF r] by (simp add: choose_next_idx_full_def None None2)
    qed
  qed
  have empty: "choose_next_idx_full s = (-1, s)" if "\<not> any_ready s"
    using that
    by (simp add: any_ready_def choose_next_idx_full_def bootstrap_rule_def
        balancing_rule_def normal_rule_def)
  show ?thesis
    using ready empty by (cases "any_ready s") auto
qed

theorem choose_none_only_when_empty_witness:
  "ids_valid 6 scenario_b \<and> any_ready scenario_b \<and>
   fst (choose_next_idx_full scenario_b) = 4 \<and>
   ids_valid 6 initial_sched \<and> \<not> any_ready initial_sched \<and>
   fst (choose_next_idx_full initial_sched) = -1"
proof -
  have a: "ids_valid 6 scenario_b"
    by (simp add: ids_valid_def queued_def scenario_b_def)
  have b: "ids_valid 6 initial_sched"
    by (simp add: ids_valid_def queued_def initial_sched_def)
  have c: "fst (choose_next_idx_full scenario_b) = 4"
    by (simp add: choose_next_idx_full_def bootstrap_rule_def balancing_rule_def
        scenario_b_def pop_west_low_def)
  show ?thesis
    using a b c choose_none_only_when_empty [OF a] choose_none_only_when_empty [OF b]
    by (simp add: any_ready_def scenario_b_def initial_sched_def)
qed

subsection \<open>The streak\<close>

lemma after_crossings_snoc:
  "after_crossings (ds @ [d]) s = train_done d (after_crossings ds s)"
  by (simp add: after_crossings_def)

lemma train_done_fields:
  "last_dir (train_done d s) = d"
  "same_dir_streak (train_done d s) = (if d = last_dir s then same_dir_streak s + 1 else 1)"
  "trains_finished (train_done d s) = trains_finished s + 1"
  by (auto simp: train_done_def Let_def)

lemma after_crossings_state:
  "same_dir_streak (after_crossings ds initial_sched)
     = int (length (takeWhile (\<lambda>x. x = last ds) (rev ds))) \<and>
   last_dir (after_crossings ds initial_sched) = (if ds = [] then EAST else last ds) \<and>
   trains_finished (after_crossings ds initial_sched) = int (length ds)"
proof (induction ds rule: rev_induct)
  case Nil
  show ?case by (simp add: after_crossings_def initial_sched_def)
next
  case (snoc d ds)
  show ?case
  proof (cases "ds = []")
    case True
    then show ?thesis
      by (simp add: after_crossings_def train_done_fields initial_sched_def)
  next
    case False
    then have run: "d \<noteq> last ds \<Longrightarrow> takeWhile (\<lambda>x. x = d) (rev ds) = []"
      by (cases ds rule: rev_cases) auto
    show ?thesis
      using snoc False run
      by (auto simp: after_crossings_snoc train_done_fields)
  qed
qed

text \<open>
  Claim C7. The bookkeeping of a train that has crossed increments the streak and keeps
  \<^verbatim>\<open>last_dir\<close> when its direction is \<^verbatim>\<open>last_dir\<close>, and otherwise sets
  \<^verbatim>\<open>last_dir\<close> to its direction and the streak to 1. Enqueuing and selecting leave
  both alone. So, starting from the initial globals, after crossings in the directions
  \<open>ds\<close> the streak is the length of the longest run of equal directions that ends
  \<open>ds\<close>, \<^verbatim>\<open>last_dir\<close> is the direction of the last crossing, and
  \<^verbatim>\<open>trains_finished\<close> is the number of crossings.
\<close>

theorem streak_counts_last_run:
  "(d = last_dir s \<longrightarrow>
      last_dir (train_done d s) = last_dir s \<and>
      same_dir_streak (train_done d s) = same_dir_streak s + 1) \<and>
   (d \<noteq> last_dir s \<longrightarrow>
      last_dir (train_done d s) = d \<and> same_dir_streak (train_done d s) = 1) \<and>
   same_dir_streak (train_enqueue t s) = same_dir_streak s \<and>
   last_dir (train_enqueue t s) = last_dir s \<and>
   same_dir_streak (snd (choose_next_idx_full s)) = same_dir_streak s \<and>
   last_dir (snd (choose_next_idx_full s)) = last_dir s \<and>
   same_dir_streak (after_crossings ds initial_sched)
     = int (length (takeWhile (\<lambda>x. x = last ds) (rev ds))) \<and>
   (ds \<noteq> [] \<longrightarrow> last_dir (after_crossings ds initial_sched) = last ds) \<and>
   trains_finished (after_crossings ds initial_sched) = int (length ds)"
proof -
  have enq: "same_dir_streak (train_enqueue t s) = same_dir_streak s \<and>
      last_dir (train_enqueue t s) = last_dir s"
    by (simp add: train_enqueue_def)
  have sel: "same_dir_streak (snd (choose_next_idx_full s)) = same_dir_streak s \<and>
      last_dir (snd (choose_next_idx_full s)) = last_dir s"
    by (auto simp: choose_next_idx_full_def bootstrap_rule_def balancing_rule_def
        normal_rule_def Let_def pop_east_high_def pop_east_low_def pop_west_high_def
        pop_west_low_def split: prod.splits)
  show ?thesis
    using enq sel after_crossings_state [of ds]
    by (simp add: train_done_fields)
qed

theorem streak_counts_last_run_witness:
  "last_dir initial_sched = EAST \<and>
   same_dir_streak (train_done EAST initial_sched) = 1 \<and>
   WEST \<noteq> last_dir initial_sched \<and>
   same_dir_streak (train_done WEST initial_sched) = 1 \<and>
   [EAST, WEST, WEST] \<noteq> [] \<and>
   last_dir (after_crossings [EAST, WEST, WEST] initial_sched) = WEST \<and>
   same_dir_streak (after_crossings [EAST, WEST, WEST] initial_sched) = 2"
  using streak_counts_last_run [of EAST initial_sched train_zero "[EAST, WEST, WEST]"]
    streak_counts_last_run [of WEST initial_sched train_zero "[EAST, WEST, WEST]"]
  by (simp add: initial_sched_def)

subsection \<open>Ties on the time stamp\<close>

lemma key_lt_not_le: "key_lt a b \<Longrightarrow> \<not> key_le b a"
  by (auto simp: key_lt_def key_le_def)

lemma key_le_lt_trans: "key_le a b \<Longrightarrow> key_lt b c \<Longrightarrow> key_lt a c"
  by (auto simp: key_lt_def key_le_def)

lemma key_lt_asym: "key_lt a b \<Longrightarrow> \<not> key_lt b a"
  by (auto simp: key_lt_def)

lemma key_lt_irrefl: "\<not> key_lt a a"
  by (simp add: key_lt_def)

lemma head_before:
  assumes "queue_sorted q" "a \<in> set q" "key_lt a b"
  shows "key_lt (hd q) b"
proof -
  have ne: "q \<noteq> []" using assms(2) by auto
  have le: "key_le (hd q) a"
    using sorted_head_least [OF assms(1) ne assms(2)] .
  show ?thesis
    using le assms(3) by (rule key_le_lt_trans)
qed

lemma queue_of_subset: "x \<in> set (queue_of d p s) \<Longrightarrow> x \<in> set (queued s)"
  by (cases d; cases p) (simp_all add: queue_of_def queued_def)

lemma distinct_idx_eq:
  assumes "distinct (map idx (queued s))" "x \<in> set (queued s)" "y \<in> set (queued s)"
    "idx x = idx y"
  shows "x = y"
proof -
  have "inj_on idx (set (queued s))"
    using assms(1) by (simp add: distinct_map)
  then show ?thesis
    using assms(2-4) by (auto dest: inj_onD)
qed

lemma distinct_queues_disjoint:
  assumes d: "distinct (map idx (queued s))" and ne: "(d, p) \<noteq> (d', p')"
    and x: "x \<in> set (queue_of d p s)" and y: "x \<in> set (queue_of d' p' s)"
  shows False
proof -
  have "distinct (queued s)"
    using d by (simp add: distinct_map)
  then have dis: "set (east_high s) \<inter> set (east_low s) = {}"
    "set (east_high s) \<inter> set (west_high s) = {}"
    "set (east_high s) \<inter> set (west_low s) = {}"
    "set (east_low s) \<inter> set (west_high s) = {}"
    "set (east_low s) \<inter> set (west_low s) = {}"
    "set (west_high s) \<inter> set (west_low s) = {}"
    by (auto simp: queued_def)
  show False
    using ne x y dis
    by (cases d; cases d'; cases p; cases p') (auto simp: queue_of_def)
qed

lemma queue_of_simps:
  "queue_of EAST True s = east_high s"
  "queue_of EAST False s = east_low s"
  "queue_of WEST True s = west_high s"
  "queue_of WEST False s = west_low s"
  by (simp_all add: queue_of_def)

lemma bootstrap_head:
  assumes "bootstrap_rule s = Some r"
  shows "\<not> have_ever_crossed s \<and>
     (\<exists>p. queue_of WEST p s \<noteq> [] \<and> fst r = idx (hd (queue_of WEST p s)))"
proof -
  have flag: "\<not> have_ever_crossed s"
    using assms by (auto simp: bootstrap_rule_def split: if_splits)
  show ?thesis
  proof (cases "west_high s = []")
    case False
    then have "fst r = idx (hd (west_high s))"
      using assms flag by (auto simp: bootstrap_rule_def pop_simps)
    then show ?thesis
      using flag False by (auto simp: queue_of_simps intro!: exI [of _ True])
  next
    case True
    then have ne: "west_low s \<noteq> []"
      using assms by (auto simp: bootstrap_rule_def split: if_splits)
    then have "fst r = idx (hd (west_low s))"
      using assms flag True by (auto simp: bootstrap_rule_def pop_simps)
    then show ?thesis
      using flag ne by (auto simp: queue_of_simps intro!: exI [of _ False])
  qed
qed

lemma balancing_head:
  assumes "balancing_rule s = Some r"
  shows "same_dir_streak s \<ge> 2 \<and>
     (\<exists>d p. queue_of d p s \<noteq> [] \<and> fst r = idx (hd (queue_of d p s)))"
proof -
  have big: "same_dir_streak s \<ge> 2"
    using assms by (auto simp: balancing_rule_def split: if_splits)
  have "\<exists>d p. queue_of d p s \<noteq> [] \<and> fst r = idx (hd (queue_of d p s))"
  proof (cases "last_dir s = EAST")
    case east: True
    show ?thesis
    proof (cases "west_high s = []")
      case False
      then have "fst r = idx (hd (west_high s))"
        using assms big east by (auto simp: balancing_rule_def pop_simps)
      with False show ?thesis
        by (intro exI [of _ WEST] exI [of _ True]) (simp add: queue_of_simps)
    next
      case True
      then have ne: "west_low s \<noteq> []"
        using assms big east by (auto simp: balancing_rule_def split: if_splits)
      then have "fst r = idx (hd (west_low s))"
        using assms big east True by (auto simp: balancing_rule_def pop_simps)
      with ne show ?thesis
        by (intro exI [of _ WEST] exI [of _ False]) (simp add: queue_of_simps)
    qed
  next
    case west: False
    show ?thesis
    proof (cases "east_high s = []")
      case False
      then have "fst r = idx (hd (east_high s))"
        using assms big west by (auto simp: balancing_rule_def pop_simps)
      with False show ?thesis
        by (intro exI [of _ EAST] exI [of _ True]) (simp add: queue_of_simps)
    next
      case True
      then have ne: "east_low s \<noteq> []"
        using assms big west by (auto simp: balancing_rule_def split: if_splits)
      then have "fst r = idx (hd (east_low s))"
        using assms big west True by (auto simp: balancing_rule_def pop_simps)
      with ne show ?thesis
        by (intro exI [of _ EAST] exI [of _ False]) (simp add: queue_of_simps)
    qed
  qed
  with big show ?thesis by simp
qed

text \<open>
  Which head the normal block pops: a High head if there is one, and of two heads of
  the same class the one with the smaller key (West on equal keys).
\<close>

lemma normal_head:
  assumes ids: "ids_valid n s" and r: "any_ready s"
  shows "\<exists>d p. queue_of d p s \<noteq> [] \<and> fst (normal_rule s) = idx (hd (queue_of d p s)) \<and>
      (\<not> p \<longrightarrow> east_high s = [] \<and> west_high s = []) \<and>
      (d = EAST \<and> queue_of WEST p s \<noteq> [] \<longrightarrow>
         key_lt (hd (queue_of EAST p s)) (hd (queue_of WEST p s))) \<and>
      (d = WEST \<and> queue_of EAST p s \<noteq> [] \<longrightarrow>
         \<not> key_lt (hd (queue_of EAST p s)) (hd (queue_of WEST p s)))"
proof -
  consider (eh) "east_high s \<noteq> []" "west_high s = [] \<or> key_lt (hd (east_high s)) (hd (west_high s))"
    | (wh) "west_high s \<noteq> []" "east_high s = [] \<or> \<not> key_lt (hd (east_high s)) (hd (west_high s))"
    | (el) "east_high s = []" "west_high s = []" "east_low s \<noteq> []"
        "west_low s = [] \<or> key_lt (hd (east_low s)) (hd (west_low s))"
    | (wl) "east_high s = []" "west_high s = []" "west_low s \<noteq> []"
        "east_low s = [] \<or> \<not> key_lt (hd (east_low s)) (hd (west_low s))"
    using r unfolding any_ready_def by blast
  then show ?thesis
  proof cases
    case eh
    then have "fst (normal_rule s) = idx (hd (east_high s))"
      unfolding normal_rule_closed [OF ids] by auto
    with eh show ?thesis
      by (intro exI [of _ EAST] exI [of _ True]) (auto simp: queue_of_simps)
  next
    case wh
    then have "fst (normal_rule s) = idx (hd (west_high s))"
      unfolding normal_rule_closed [OF ids] by auto
    with wh show ?thesis
      by (intro exI [of _ WEST] exI [of _ True]) (auto simp: queue_of_simps)
  next
    case el
    then have "fst (normal_rule s) = idx (hd (east_low s))"
      unfolding normal_rule_closed [OF ids] by auto
    with el show ?thesis
      by (intro exI [of _ EAST] exI [of _ False]) (auto simp: queue_of_simps)
  next
    case wl
    then have "fst (normal_rule s) = idx (hd (west_low s))"
      unfolding normal_rule_closed [OF ids] by auto
    with wl show ?thesis
      by (intro exI [of _ WEST] exI [of _ False]) (auto simp: queue_of_simps)
  qed
qed

text \<open>
  Claim C5, as the program has it. Two waiting trains with the same time stamp are
  dispatched in ascending index order when they wait in the same queue, and also when
  they wait in the two queues of one priority class while neither override applies (a
  train has crossed and the streak is below 2): the selection never returns the higher
  index while the lower one waits. Priority and the two overrides come before the
  tie-break, so across priority classes, or under an override, the higher index can go
  first.
\<close>

theorem tie_break_ascending_index:
  assumes sorted: "queues_sorted s"
    and ids: "ids_valid n s"
    and dist: "distinct (map idx (queued s))"
    and a: "a \<in> set (queue_of da p s)"
    and b: "b \<in> set (queue_of db p s)"
    and tie: "ready_ns a = ready_ns b"
    and lower: "idx a < idx b"
    and scope: "da = db \<or> (have_ever_crossed s \<and> same_dir_streak s < 2)"
  shows "fst (choose_next_idx_full s) \<noteq> idx b"
proof
  assume chosen: "fst (choose_next_idx_full s) = idx b"
  have lt: "key_lt a b"
    using tie lower by (simp add: key_lt_def)
  have sorted_of: "queue_sorted (queue_of d q s)" for d q
    using sorted by (cases d; cases q) (simp_all add: queues_sorted_def queue_of_simps)
  have ready: "any_ready s"
    using a by (cases da; cases p) (auto simp: any_ready_def queue_of_simps)
  (* the selection returned the index of the head of some queue *)
  have "\<exists>d q. queue_of d q s \<noteq> [] \<and> idx b = idx (hd (queue_of d q s)) \<and>
      (have_ever_crossed s \<and> same_dir_streak s < 2 \<longrightarrow>
        (d = EAST \<and> queue_of WEST q s \<noteq> [] \<longrightarrow>
           key_lt (hd (queue_of EAST q s)) (hd (queue_of WEST q s))) \<and>
        (d = WEST \<and> queue_of EAST q s \<noteq> [] \<longrightarrow>
           \<not> key_lt (hd (queue_of EAST q s)) (hd (queue_of WEST q s))))"
  proof (cases "bootstrap_rule s")
    case (Some r1)
    from bootstrap_head [OF Some] chosen Some show ?thesis
      by (auto simp: choose_next_idx_full_def)
  next
    case None
    show ?thesis
    proof (cases "balancing_rule s")
      case (Some r2)
      from balancing_head [OF Some] chosen Some None show ?thesis
        by (auto simp: choose_next_idx_full_def)
    next
      case None2: None
      have "choose_next_idx_full s = normal_rule s"
        by (simp add: choose_next_idx_full_def None None2)
      with normal_head [OF ids ready] chosen show ?thesis
        by auto
    qed
  qed
  then obtain d q where ne: "queue_of d q s \<noteq> []"
    and hd_idx: "idx b = idx (hd (queue_of d q s))"
    and normal: "have_ever_crossed s \<and> same_dir_streak s < 2 \<Longrightarrow>
        (d = EAST \<and> queue_of WEST q s \<noteq> [] \<longrightarrow>
           key_lt (hd (queue_of EAST q s)) (hd (queue_of WEST q s))) \<and>
        (d = WEST \<and> queue_of EAST q s \<noteq> [] \<longrightarrow>
           \<not> key_lt (hd (queue_of EAST q s)) (hd (queue_of WEST q s)))"
    by blast
  (* indexes are distinct, so that head is b and the queue is the one b waits in *)
  have hd_in: "hd (queue_of d q s) \<in> set (queue_of d q s)"
    using ne by simp
  have hd_b: "hd (queue_of d q s) = b"
    using distinct_idx_eq [OF dist queue_of_subset [OF hd_in] queue_of_subset [OF b]] hd_idx
    by simp
  have same: "(d, q) = (db, p)"
    using distinct_queues_disjoint [OF dist _ _ b, of d q] hd_in hd_b by auto
  then have head: "hd (queue_of db p s) = b"
    using hd_b by simp
  show False
  proof (cases "da = db")
    case True
    then have "key_lt (hd (queue_of db p s)) b"
      using head_before [OF sorted_of a lt] by simp
    then show False
      using head by (simp add: key_lt_irrefl)
  next
    case False
    then have nrm: "have_ever_crossed s \<and> same_dir_streak s < 2"
      using scope by simp
    have other: "key_lt (hd (queue_of da p s)) b"
      using head_before [OF sorted_of a lt] .
    have ne_a: "queue_of da p s \<noteq> []"
      using a by auto
    show False
    proof (cases db)
      case EAST
      then have da: "da = WEST"
        using False by (cases da) auto
      have "key_lt (hd (queue_of EAST p s)) (hd (queue_of WEST p s))"
        using normal [OF nrm] same EAST da ne_a by auto
      then have "key_lt b (hd (queue_of WEST p s))"
        using head EAST by simp
      then show False
        using other da key_lt_asym by blast
    next
      case WEST
      then have da: "da = EAST"
        using False by (cases da) auto
      have "\<not> key_lt (hd (queue_of EAST p s)) (hd (queue_of WEST p s))"
        using normal [OF nrm] same WEST da ne_a by auto
      then show False
        using other da head WEST by simp
    qed
  qed
qed

theorem tie_break_ascending_index_witness:
  "queues_sorted (scenario_b\<lparr>same_dir_streak := 1\<rparr>) \<and>
   ids_valid 6 (scenario_b\<lparr>same_dir_streak := 1\<rparr>) \<and>
   distinct (map idx (queued (scenario_b\<lparr>same_dir_streak := 1\<rparr>))) \<and>
   \<lparr>idx = 2, ready_ns = 1\<rparr> \<in> set (queue_of EAST True (scenario_b\<lparr>same_dir_streak := 1\<rparr>)) \<and>
   \<lparr>idx = 3, ready_ns = 1\<rparr> \<in> set (queue_of EAST True (scenario_b\<lparr>same_dir_streak := 1\<rparr>)) \<and>
   fst (choose_next_idx_full (scenario_b\<lparr>same_dir_streak := 1\<rparr>)) \<noteq> 3 \<and>
   fst (choose_next_idx_full (scenario_b\<lparr>same_dir_streak := 1\<rparr>)) = 2"
proof -
  let ?s = "scenario_b\<lparr>same_dir_streak := 1\<rparr>"
  let ?a = "\<lparr>idx = 2, ready_ns = 1\<rparr>"
  let ?b = "\<lparr>idx = 3, ready_ns = 1\<rparr>"
  have h1: "queues_sorted ?s"
    by (simp add: queues_sorted_def queue_sorted_def key_le_def scenario_b_def)
  have h2: "ids_valid 6 ?s"
    by (simp add: ids_valid_def queued_def scenario_b_def)
  have h3: "distinct (map idx (queued ?s))"
    by (simp add: queued_def scenario_b_def)
  have h4: "?a \<in> set (queue_of EAST True ?s)"
    by (simp add: queue_of_def scenario_b_def)
  have h5: "?b \<in> set (queue_of EAST True ?s)"
    by (simp add: queue_of_def scenario_b_def)
  have h6: "ready_ns ?a = ready_ns ?b" by simp
  have h7: "idx ?a < idx ?b" by simp
  have h8: "EAST = EAST \<or> (have_ever_crossed ?s \<and> same_dir_streak ?s < 2)" by simp
  have r: "fst (choose_next_idx_full ?s) = 2"
    by (simp add: choose_next_idx_full_def bootstrap_rule_def balancing_rule_def
        normal_rule_def choose_from_pair_def scenario_b_def)
  show ?thesis
    using h1 h2 h3 h4 h5 r tie_break_ascending_index [OF h1 h2 h3 h4 h5 h6 h7 h8]
    by simp
qed

text \<open>
  The claim as stated fails across priority classes: in \<open>tie_state\<close> trains 0
  (East-Low) and 1 (East-High) wait with the same time stamp and the selection returns
  train 1, leaving train 0 in its queue.
\<close>

theorem tie_break_counterexample:
  "\<lparr>idx = 0, ready_ns = 5\<rparr> \<in> set (queued tie_state) \<and>
   \<lparr>idx = 1, ready_ns = 5\<rparr> \<in> set (queued tie_state) \<and>
   queues_sorted tie_state \<and> ids_valid 2 tie_state \<and>
   choose_next_idx_full tie_state = (1, tie_state\<lparr>east_high := []\<rparr>) \<and>
   east_low (snd (choose_next_idx_full tie_state)) = [\<lparr>idx = 0, ready_ns = 5\<rparr>]"
  by (simp add: tie_state_def initial_sched_def queued_def queues_sorted_def
      queue_sorted_def ids_valid_def choose_next_idx_full_def bootstrap_rule_def
      balancing_rule_def normal_rule_def choose_from_pair_def)

subsection \<open>The roster loader\<close>

lemmas scan_defs = parse_line_def sscanf_c_d_d_def scan_int_def isspace_c_def
  isdigit_c_def digits_value_def c_string_def strtol_value_def int_cast_def
  LONG_MAX_def LONG_MIN_def

lemma parse_line_none_any_id:
  "parse_line line n = None \<Longrightarrow> parse_line line m = None"
  by (auto simp: parse_line_def Let_def split: option.splits prod.splits if_splits)

text \<open>A blank buffer holds white space only, as far as its string goes.\<close>

lemma blank_line_all_space:
  assumes "blank_line buf" "fgets_buffer buf"
  shows "dropWhile isspace_c (c_string buf) = []"
proof -
  define cs where "cs = c_string buf"
  define after where "after = dropWhile (\<lambda>c. c \<noteq> CHR 0x00) buf"
  define tw where "tw = takeWhile (\<lambda>c. c = CHR '' '' \<or> c = CHR 0x09) cs"
  define dw where "dw = dropWhile (\<lambda>c. c = CHR '' '' \<or> c = CHR 0x09) cs"
  have whole: "buf = cs @ after"
    by (simp add: cs_def after_def c_string_def)
  have parts: "cs = tw @ dw"
    by (simp add: tw_def dw_def)
  have front: "\<forall>c \<in> set tw. isspace_c c"
    unfolding tw_def by (auto dest!: set_takeWhileD simp: isspace_c_def)
  have rear: "\<forall>c \<in> set dw. isspace_c c"
  proof (cases dw)
    case Nil
    then show ?thesis by simp
  next
    case (Cons c rest)
    then have c: "c = CHR 0x0A"
      using assms(1) by (simp add: blank_line_def dw_def cs_def)
    have "rest = []"
    proof (rule ccontr)
      assume "rest \<noteq> []"
      then have "butlast (tw @ c # rest @ after) = tw @ c # butlast (rest @ after)"
        by (simp add: butlast_append)
      then have "c \<in> set (butlast buf)"
        by (simp add: whole parts Cons)
      then show False
        using assms(2) c by (simp add: fgets_buffer_def)
    qed
    then show ?thesis
      using Cons c by (simp add: isspace_c_def)
  qed
  have "\<forall>c \<in> set cs. isspace_c c"
    using front rear by (auto simp: parts)
  then show ?thesis
    by (simp add: cs_def)
qed

lemma blank_line_no_parse:
  "blank_line buf \<Longrightarrow> fgets_buffer buf \<Longrightarrow> parse_line buf n = None"
  by (simp add: parse_line_def sscanf_c_d_d_def blank_line_all_space)

lemma parse_lines_Inr:
  "parse_lines lines n cnt ts = Inr ts' \<Longrightarrow> j < length lines \<Longrightarrow> n + int j < cnt \<Longrightarrow>
   parse_line (lines ! j) (n + int j) \<noteq> None"
proof (induction lines arbitrary: n ts j)
  case Nil
  then show ?case by simp
next
  case (Cons buf rest)
  have less: "n < cnt"
    using Cons.prems(3) by simp
  then obtain t where t: "parse_line buf n = Some t"
    and rec: "parse_lines rest (n + 1) cnt (ts @ [t]) = Inr ts'"
    using Cons.prems(1) by (auto split: option.splits)
  show ?case
  proof (cases j)
    case 0
    then show ?thesis using t by simp
  next
    case (Suc i)
    then have "parse_line (rest ! i) (n + 1 + int i) \<noteq> None"
      using Cons.IH [OF rec, of i] Cons.prems(2,3) by simp
    then show ?thesis
      using Suc by (simp add: algebra_simps)
  qed
qed

lemma parse_lines_Inl:
  "parse_lines lines n cnt ts = Inl e \<Longrightarrow>
   \<exists>j < length lines. e = Parse_error (n + int j + 1) (c_string (lines ! j)) \<and>
      parse_line (lines ! j) (n + int j) = None \<and>
      (\<forall>i < j. parse_line (lines ! i) (n + int i) \<noteq> None)"
proof (induction lines arbitrary: n ts)
  case Nil
  then show ?case by simp
next
  case (Cons buf rest)
  have less: "n < cnt"
    using Cons.prems by (auto split: if_splits)
  show ?case
  proof (cases "parse_line buf n")
    case None
    then have "e = Parse_error (n + 1) (c_string buf)"
      using Cons.prems less by simp
    with None show ?thesis
      by (intro exI [of _ 0]) simp
  next
    case (Some t)
    then have "parse_lines rest (n + 1) cnt (ts @ [t]) = Inl e"
      using Cons.prems less by simp
    from Cons.IH [OF this] obtain j where j: "j < length rest"
      and e: "e = Parse_error (n + 1 + int j + 1) (c_string (rest ! j))"
      and fails: "parse_line (rest ! j) (n + 1 + int j) = None"
      and before: "\<forall>i < j. parse_line (rest ! i) (n + 1 + int i) \<noteq> None"
      by blast
    have "\<forall>i < Suc j. parse_line ((buf # rest) ! i) (n + int i) \<noteq> None"
    proof (intro allI impI)
      fix i assume "i < Suc j"
      then show "parse_line ((buf # rest) ! i) (n + int i) \<noteq> None"
        using Some before by (cases i) (auto simp: algebra_simps)
    qed
    with j e fails show ?thesis
      by (intro exI [of _ "Suc j"]) (simp add: algebra_simps)
  qed
qed

text \<open>
  When the second pass ends without an error, every line that is not blank has been
  parsed: the lines it read are as many as the first pass counted, and none of them is
  blank.
\<close>

lemma loaded_lines_all_parse:
  assumes ok: "parse_lines lines 0 (count_lines lines) [] = Inr ts"
    and bufs: "\<forall>l \<in> set lines. fgets_buffer l"
    and mem: "buf \<in> set lines" and nb: "\<not> blank_line buf"
  shows "\<exists>j. parse_line buf j \<noteq> None"
proof -
  define P where "P = (\<lambda>b. \<not> blank_line b)"
  define c where "c = length (filter P lines)"
  have cnt: "count_lines lines = int c"
    by (simp add: count_lines_def c_def P_def)
  have c_le: "c \<le> length lines"
    by (simp add: c_def)
  have parsed: "parse_line (lines ! j) (int j) \<noteq> None" if "j < c" for j
    using parse_lines_Inr [OF ok, of j] that c_le by (simp add: cnt)
  have front: "P x" if "x \<in> set (take c lines)" for x
  proof -
    from that obtain j where j: "j < c" "x = lines ! j"
      using c_le by (auto simp: in_set_conv_nth)
    then have "fgets_buffer x"
      using c_le bufs by simp
    then have "blank_line x \<Longrightarrow> parse_line x (int j) = None"
      by (simp add: blank_line_no_parse)
    then show ?thesis
      using parsed [OF j(1)] j(2) unfolding P_def by auto
  qed
  then have "filter P (take c lines) = take c lines"
    by (simp add: filter_id_conv)
  then have taken: "length (filter P (take c lines)) = c"
    using c_le by simp
  have "filter P lines = filter P (take c lines) @ filter P (drop c lines)"
    by (simp flip: filter_append)
  then have "length (filter P lines)
      = length (filter P (take c lines)) + length (filter P (drop c lines))"
    by (simp only: length_append)
  moreover have "length (filter P lines) = c"
    by (simp only: c_def)
  ultimately have "length (filter P (drop c lines)) = 0"
    using taken by linarith
  then have none: "\<forall>x \<in> set (drop c lines). \<not> P x"
    by (simp add: filter_empty_conv)
  have "set lines = set (take c lines) \<union> set (drop c lines)"
    by (simp flip: set_append)
  then have "buf \<in> set (take c lines)"
    using mem nb none by (auto simp: P_def)
  then obtain j where "j < c" "buf = lines ! j"
    using c_le by (auto simp: in_set_conv_nth)
  then show ?thesis
    using parsed by blast
qed

lemma parse_line_Some_iff:
  "parse_line line n = Some t \<longleftrightarrow>
     (\<exists>c load cross. sscanf_c_d_d (c_string line) = Some (c, load, cross) \<and>
        (c = CHR ''e'' \<or> c = CHR ''E'' \<or> c = CHR ''w'' \<or> c = CHR ''W'') \<and>
        1 \<le> load \<and> load \<le> 99 \<and> 1 \<le> cross \<and> cross \<le> 99 \<and>
        t = \<lparr>train_id = n,
              dir = (if c = CHR ''e'' \<or> c = CHR ''E'' then EAST else WEST),
              high_priority = (c = CHR ''E'' \<or> c = CHR ''W''),
              loading_time = load, crossing_time = cross,
              ready_time_ns = -1, my_turn = False\<rparr>)"
proof (cases "sscanf_c_d_d (c_string line)")
  case None
  then show ?thesis by (simp add: parse_line_def)
next
  case (Some r)
  obtain c load cross where r: "r = (c, load, cross)"
    by (cases r) auto
  show ?thesis
    unfolding parse_line_def Some r
    by (auto simp: Let_def)
qed

lemma parse_lines_prefix:
  "(\<forall>j < length xs. parse_line (xs ! j) (n + int j) \<noteq> None) \<Longrightarrow>
   cnt = n + int (length xs) \<Longrightarrow>
   \<exists>ts. parse_lines (xs @ ys) n cnt acc = Inr ts \<and> length ts = length acc + length xs"
proof (induction xs arbitrary: n acc)
  case Nil
  then show ?case by (cases ys) simp_all
next
  case (Cons x xs)
  have "parse_line x n \<noteq> None"
    using Cons.prems(1) by fastforce
  then obtain t where t: "parse_line x n = Some t"
    by blast
  have rest: "\<forall>j < length xs. parse_line (xs ! j) (n + 1 + int j) \<noteq> None"
  proof (intro allI impI)
    fix j assume "j < length xs"
    then have "parse_line ((x # xs) ! Suc j) (n + int (Suc j)) \<noteq> None"
      using Cons.prems(1) by (metis Suc_less_eq length_Cons)
    then show "parse_line (xs ! j) (n + 1 + int j) \<noteq> None"
      by (simp add: algebra_simps)
  qed
  have "cnt = n + 1 + int (length xs)"
    using Cons.prems(2) by simp
  from Cons.IH [OF rest this, of "acc @ [t]"]
  show ?case
    using t Cons.prems(2) by simp
qed

lemma main_load_failed:
  "load_trains (input_file e) (calloc_succeeds e) = Inl err \<Longrightarrow>
   main e = \<lparr>exit_code = 1, dispatcher_created = False, workers_created = 0\<rparr>"
  by (simp add: main_def)

text \<open>
  Claim C9 says that a line parses exactly when it holds a direction code followed by
  two durations between 1 and 99, and that a malformed line fails the load with an
  error that names the offending line. The program departs from it in two places, each
  against its own comments.
  \<^item> \<^verbatim>\<open>parse_line\<close> (whose comment says it validates that the times are in 1..99)
    tests the durations after \<^verbatim>\<open>sscanf\<close> has stored them in an \<^verbatim>\<open>int\<close>: the line
    \<^verbatim>\<open>E 4294967297 1\<close> parses, as a train with loading time 1.
  \<^item> The first pass of \<^verbatim>\<open>load_trains\<close> skips blank lines (its comment says so) and
    the second pass does not. With a blank line between \<^verbatim>\<open>E 1 1\<close> and the malformed
    \<^verbatim>\<open>x 2 2\<close> the error names line 2, the blank line, and not line 3; and with the
    well-formed \<^verbatim>\<open>w 2 2\<close> in place of \<^verbatim>\<open>x 2 2\<close> the load fails all the same, with
    a parse error on the blank line, and \<^verbatim>\<open>main\<close> exits with 1.
\<close>

theorem roster_loader_defects:
  "parse_line ''E 4294967297 1\<newline>'' 0 =
     Some \<lparr>train_id = 0, dir = EAST, high_priority = True, loading_time = 1,
           crossing_time = 1, ready_time_ns = -1, my_turn = False\<rparr> \<and>
   blank_line ''\<newline>'' \<and>
   parse_line ''x 2 2\<newline>'' 1 = None \<and>
   load_trains (Some roster_blank_then_bad) True = Inl (Parse_error 2 ''\<newline>'') \<and>
   parse_line ''E 1 1\<newline>'' 0 = Some train_zero \<and>
   parse_line ''w 2 2\<newline>'' 1 =
     Some \<lparr>train_id = 1, dir = WEST, high_priority = False, loading_time = 2,
           crossing_time = 2, ready_time_ns = -1, my_turn = False\<rparr> \<and>
   load_trains (Some roster_blank_inside) True = Inl (Parse_error 2 ''\<newline>'') \<and>
   main (plain_environment roster_blank_inside) =
     \<lparr>exit_code = 1, dispatcher_created = False, workers_created = 0\<rparr>"
proof -
  have wide: "parse_line ''E 4294967297 1\<newline>'' 0 =
     Some \<lparr>train_id = 0, dir = EAST, high_priority = True, loading_time = 1,
           crossing_time = 1, ready_time_ns = -1, my_turn = False\<rparr>"
    by (simp add: scan_defs)
  have blank: "blank_line ''\<newline>''"
    by (simp add: blank_line_def c_string_def)
  have bad: "parse_line ''x 2 2\<newline>'' 1 = None"
    by (simp add: scan_defs)
  have load_bad: "load_trains (Some roster_blank_then_bad) True
      = Inl (Parse_error 2 ''\<newline>'')"
    by (simp add: load_trains_def count_lines_def blank_line_def roster_blank_then_bad_def
        scan_defs)
  have first: "parse_line ''E 1 1\<newline>'' 0 = Some train_zero"
    by (simp add: scan_defs train_zero_def)
  have third: "parse_line ''w 2 2\<newline>'' 1 =
     Some \<lparr>train_id = 1, dir = WEST, high_priority = False, loading_time = 2,
           crossing_time = 2, ready_time_ns = -1, my_turn = False\<rparr>"
    by (simp add: scan_defs)
  have load_inside: "load_trains (Some roster_blank_inside) True
      = Inl (Parse_error 2 ''\<newline>'')"
    by (simp add: load_trains_def count_lines_def blank_line_def roster_blank_inside_def
        scan_defs)
  have "main (plain_environment roster_blank_inside) =
     \<lparr>exit_code = 1, dispatcher_created = False, workers_created = 0\<rparr>"
    by (simp add: main_def plain_environment_def load_inside)
  with wide blank bad load_bad first third load_inside show ?thesis
    by simp
qed

subsection \<open>What the loader does keep of the claim\<close>

text \<open>
  A line that is not blank and does not parse fails the load, whether or not the array
  can be allocated, and \<^verbatim>\<open>main\<close> then exits with 1 without having created a thread.
\<close>

theorem unparsable_line_fails_load:
  assumes bufs: "\<forall>l \<in> set lines. fgets_buffer l"
    and mem: "buf \<in> set lines" and nb: "\<not> blank_line buf"
    and bad: "parse_line buf 0 = None"
  shows "isl (load_trains (Some lines) c) \<and>
     (input_file e = Some lines \<longrightarrow>
        main e = \<lparr>exit_code = 1, dispatcher_created = False, workers_created = 0\<rparr>)"
proof -
  have pos: "count_lines lines \<noteq> 0"
    using mem nb by (auto simp: count_lines_def filter_empty_conv)
  have "\<exists>err. parse_lines lines 0 (count_lines lines) [] = Inl err"
  proof (cases "parse_lines lines 0 (count_lines lines) []")
    case (Inl err)
    then show ?thesis by simp
  next
    case (Inr ts)
    from loaded_lines_all_parse [OF Inr bufs mem nb]
    obtain j where "parse_line buf j \<noteq> None" by blast
    then have False
      using parse_line_none_any_id [OF bad, of j] by simp
    then show ?thesis ..
  qed
  then obtain err where err: "parse_lines lines 0 (count_lines lines) [] = Inl err"
    by blast
  have fails: "\<exists>err'. load_trains (Some lines) c' = Inl err'" for c'
    using pos err by (cases c') (simp_all add: load_trains_def)
  have "main e = \<lparr>exit_code = 1, dispatcher_created = False, workers_created = 0\<rparr>"
    if inp: "input_file e = Some lines"
  proof -
    obtain err' where "load_trains (input_file e) (calloc_succeeds e) = Inl err'"
      using fails [of "calloc_succeeds e"] inp by auto
    then show ?thesis
      by (rule main_load_failed)
  qed
  moreover have "isl (load_trains (Some lines) c)"
    using fails [of c] by auto
  ultimately show ?thesis
    by blast
qed

theorem unparsable_line_fails_load_witness:
  "list_all fgets_buffer roster_bad \<and> ''x 2 2\<newline>'' \<in> set roster_bad \<and>
   \<not> blank_line ''x 2 2\<newline>'' \<and> parse_line ''x 2 2\<newline>'' 0 = None \<and>
   isl (load_trains (Some roster_bad) True) \<and>
   main (plain_environment roster_bad) =
     \<lparr>exit_code = 1, dispatcher_created = False, workers_created = 0\<rparr>"
proof -
  have h1: "list_all fgets_buffer roster_bad"
    by (simp add: roster_bad_def fgets_buffer_def)
  have h2: "''x 2 2\<newline>'' \<in> set roster_bad"
    by (simp add: roster_bad_def)
  have h3: "\<not> blank_line ''x 2 2\<newline>''"
    by (simp add: blank_line_def c_string_def)
  have h4: "parse_line ''x 2 2\<newline>'' 0 = None"
    by (simp add: scan_defs)
  have h5: "input_file (plain_environment roster_bad) = Some roster_bad"
    by (simp add: plain_environment_def)
  have all: "\<forall>l \<in> set roster_bad. fgets_buffer l"
    using h1 by (simp add: list_all_iff)
  show ?thesis
    using h1 h2 h3 h4 h5
      unparsable_line_fails_load [OF all h2 h3 h4, of True "plain_environment roster_bad"]
    by simp
qed

text \<open>
  Blank lines after the last train line are neither counted nor read: a file of lines
  that parse, followed by blank lines, loads with one train for each line that parses.
\<close>

theorem trailing_blank_lines_load:
  assumes good: "\<forall>j < length good. parse_line (good ! j) (int j) \<noteq> None"
    and bufs: "\<forall>l \<in> set good. fgets_buffer l"
    and blanks: "\<forall>l \<in> set blanks. blank_line l"
  shows "\<exists>ts. load_trains (Some (good @ blanks)) True = Inr ts \<and> length ts = length good"
proof -
  have nb: "\<not> blank_line l" if mem: "l \<in> set good" for l
  proof
    assume b: "blank_line l"
    obtain j where j: "j < length good" "l = good ! j"
      using mem by (auto simp: in_set_conv_nth)
    have "parse_line l (int j) = None"
      using b bufs mem by (simp add: blank_line_no_parse)
    then show False
      using good j by simp
  qed
  have "filter (\<lambda>buf. \<not> blank_line buf) (good @ blanks) = good"
    using nb blanks by (simp add: filter_id_conv filter_empty_conv)
  then have cnt: "count_lines (good @ blanks) = int (length good)"
    by (simp add: count_lines_def)
  show ?thesis
  proof (cases "good = []")
    case True
    then show ?thesis
      using cnt by (simp add: load_trains_def)
  next
    case False
    have "\<forall>j < length good. parse_line (good ! j) (0 + int j) \<noteq> None"
      using good by simp
    from parse_lines_prefix [OF this, of "int (length good)" blanks "[]"]
    show ?thesis
      using False cnt by (simp add: load_trains_def)
  qed
qed

theorem trailing_blank_lines_load_witness:
  "parse_line ''E 1 1\<newline>'' 0 = Some train_zero \<and>
   list_all fgets_buffer [''E 1 1\<newline>''] \<and> list_all blank_line [''\<newline>''] \<and>
   roster_trailing_blank = [''E 1 1\<newline>''] @ [''\<newline>''] \<and>
   load_trains (Some roster_trailing_blank) True = Inr [train_zero]"
proof -
  have p: "parse_line ''E 1 1\<newline>'' 0 = Some train_zero"
    by (simp add: scan_defs train_zero_def)
  have h1: "\<forall>j < length [''E 1 1\<newline>'']. parse_line ([''E 1 1\<newline>''] ! j) (int j) \<noteq> None"
    using p by simp
  have b: "list_all fgets_buffer [''E 1 1\<newline>'']"
    by (simp add: fgets_buffer_def)
  then have h2: "\<forall>l \<in> set [''E 1 1\<newline>'']. fgets_buffer l"
    by simp
  have bl: "list_all blank_line [''\<newline>'']"
    by (simp add: blank_line_def c_string_def)
  then have h3: "\<forall>l \<in> set [''\<newline>'']. blank_line l"
    by simp
  have r: "roster_trailing_blank = [''E 1 1\<newline>''] @ [''\<newline>'']"
    by (simp add: roster_trailing_blank_def)
  have "load_trains (Some roster_trailing_blank) True = Inr [train_zero]"
    by (simp add: load_trains_def count_lines_def blank_line_def roster_trailing_blank_def
        scan_defs train_zero_def)
  then show ?thesis
    using p b bl r trailing_blank_lines_load [OF h1 h2 h3] by simp
qed

text \<open>
  A buffer that starts with a NUL byte is an empty string, so it is blank for the first
  pass, like any blank line at the end of the file.
\<close>

lemma nul_line_is_blank:
  "blank_line [CHR 0x00, CHR 0x0A] \<and> fgets_buffer [CHR 0x00, CHR 0x0A] \<and>
   load_trains (Some [''E 1 1\<newline>'', [CHR 0x00, CHR 0x0A]]) True = Inr [train_zero]"
  by (simp add: load_trains_def count_lines_def blank_line_def fgets_buffer_def
      scan_defs train_zero_def)

subsection \<open>The empty roster\<close>

text \<open>
  Claim C10. When every line of the input file is blank, \<^verbatim>\<open>load_trains\<close> succeeds
  with no train, whether or not an allocation would succeed (none is made); with the
  output file open and the dispatcher thread started, \<^verbatim>\<open>main\<close> creates no train
  thread and returns 0; and the dispatcher, started on the initial globals with
  \<^verbatim>\<open>n_trains = 0\<close>, leaves its loop at once without selecting.
\<close>

theorem empty_roster_exits_zero:
  assumes "\<forall>l \<in> set lines. blank_line l"
  shows "load_trains (Some lines) c = Inr [] \<and>
     (argc e = 2 \<and> output_opens e \<and> input_file e = Some lines \<and> dispatcher_starts e \<longrightarrow>
        main e = \<lparr>exit_code = 0, dispatcher_created = True, workers_created = 0\<rparr>) \<and>
     dispatcher_main_step 0 initial_sched = Exit"
proof -
  have "count_lines lines = 0"
    using assms by (simp add: count_lines_def filter_empty_conv)
  then have load: "load_trains (Some lines) c = Inr []" for c
    by (simp add: load_trains_def)
  have "main e = \<lparr>exit_code = 0, dispatcher_created = True, workers_created = 0\<rparr>"
    if "argc e = 2 \<and> output_opens e \<and> input_file e = Some lines \<and> dispatcher_starts e"
    using that load [of "calloc_succeeds e"]
    by (cases "worker_start_fails_at e") (simp_all add: main_def)
  moreover have "dispatcher_main_step 0 initial_sched = Exit"
    by (simp add: dispatcher_main_step_def initial_sched_def)
  ultimately show ?thesis
    using load by blast
qed

theorem empty_roster_exits_zero_witness:
  "list_all blank_line roster_blank \<and>
   load_trains (Some roster_blank) True = Inr [] \<and>
   main (plain_environment roster_blank) =
     \<lparr>exit_code = 0, dispatcher_created = True, workers_created = 0\<rparr>"
proof -
  have h: "list_all blank_line roster_blank"
    by (simp add: roster_blank_def blank_line_def c_string_def)
  then have all: "\<forall>l \<in> set roster_blank. blank_line l"
    by (simp add: list_all_iff)
  show ?thesis
    using h empty_roster_exits_zero [OF all, of True "plain_environment roster_blank"]
    by (simp add: plain_environment_def)
qed

subsection \<open>Mutual exclusion on the track\<close>

lemma pop_mset:
  "east_high s \<noteq> [] \<Longrightarrow>
     mset (queued s) = add_mset (hd (east_high s)) (mset (queued (snd (pop_east_high s))))"
  "east_low s \<noteq> [] \<Longrightarrow>
     mset (queued s) = add_mset (hd (east_low s)) (mset (queued (snd (pop_east_low s))))"
  "west_high s \<noteq> [] \<Longrightarrow>
     mset (queued s) = add_mset (hd (west_high s)) (mset (queued (snd (pop_west_high s))))"
  "west_low s \<noteq> [] \<Longrightarrow>
     mset (queued s) = add_mset (hd (west_low s)) (mset (queued (snd (pop_west_low s))))"
proof -
  have split: "q \<noteq> [] \<Longrightarrow> mset q = add_mset (hd q) (mset (tl q))" for q :: ready_queue
    by (cases q) auto
  show "east_high s \<noteq> [] \<Longrightarrow>
     mset (queued s) = add_mset (hd (east_high s)) (mset (queued (snd (pop_east_high s))))"
    by (simp add: pop_simps queued_def split)
  show "east_low s \<noteq> [] \<Longrightarrow>
     mset (queued s) = add_mset (hd (east_low s)) (mset (queued (snd (pop_east_low s))))"
    by (simp add: pop_simps queued_def split)
  show "west_high s \<noteq> [] \<Longrightarrow>
     mset (queued s) = add_mset (hd (west_high s)) (mset (queued (snd (pop_west_high s))))"
    by (simp add: pop_simps queued_def split)
  show "west_low s \<noteq> [] \<Longrightarrow>
     mset (queued s) = add_mset (hd (west_low s)) (mset (queued (snd (pop_west_low s))))"
    by (simp add: pop_simps queued_def split)
qed

text \<open>With valid indexes and a train waiting, the selection is a pop of a non-empty queue.\<close>

lemma choose_is_pop:
  assumes ids: "ids_valid n s" and r: "any_ready s"
  shows "(east_high s \<noteq> [] \<and> choose_next_idx_full s = pop_east_high s)
       \<or> (east_low s \<noteq> [] \<and> choose_next_idx_full s = pop_east_low s)
       \<or> (west_high s \<noteq> [] \<and> choose_next_idx_full s = pop_west_high s)
       \<or> (west_low s \<noteq> [] \<and> choose_next_idx_full s = pop_west_low s)"
proof (cases "bootstrap_rule s")
  case (Some r1)
  then show ?thesis
    by (auto simp: choose_next_idx_full_def bootstrap_rule_def split: if_splits)
next
  case None
  show ?thesis
  proof (cases "balancing_rule s")
    case (Some r2)
    then have "(east_high s \<noteq> [] \<and> r2 = pop_east_high s)
       \<or> (east_low s \<noteq> [] \<and> r2 = pop_east_low s)
       \<or> (west_high s \<noteq> [] \<and> r2 = pop_west_high s)
       \<or> (west_low s \<noteq> [] \<and> r2 = pop_west_low s)"
      by (cases "last_dir s = EAST"; cases "west_high s = []"; cases "east_high s = []")
         (auto simp: balancing_rule_def Let_def split: if_splits)
    then show ?thesis
      by (simp add: choose_next_idx_full_def None Some)
  next
    case None2: None
    have eq: "choose_next_idx_full s = normal_rule s"
      by (simp add: choose_next_idx_full_def None None2)
    show ?thesis
      unfolding eq normal_rule_closed [OF ids]
      using r by (auto simp: any_ready_def pop_simps)
  qed
qed

lemma choose_pops_one:
  assumes ids: "ids_valid n s" and r: "any_ready s"
  shows "\<exists>m. mset (queued s) = add_mset m (mset (queued (snd (choose_next_idx_full s)))) \<and>
      idx m = fst (choose_next_idx_full s)"
proof -
  consider (eh) "east_high s \<noteq> []" "choose_next_idx_full s = pop_east_high s"
    | (el) "east_low s \<noteq> []" "choose_next_idx_full s = pop_east_low s"
    | (wh) "west_high s \<noteq> []" "choose_next_idx_full s = pop_west_high s"
    | (wl) "west_low s \<noteq> []" "choose_next_idx_full s = pop_west_low s"
    using choose_is_pop [OF ids r] by blast
  then show ?thesis
  proof cases
    case eh
    then show ?thesis
      using pop_mset(1) [of s] by (intro exI [of _ "hd (east_high s)"]) (simp add: pop_simps)
  next
    case el
    then show ?thesis
      using pop_mset(2) [of s] by (intro exI [of _ "hd (east_low s)"]) (simp add: pop_simps)
  next
    case wh
    then show ?thesis
      using pop_mset(3) [of s] by (intro exI [of _ "hd (west_high s)"]) (simp add: pop_simps)
  next
    case wl
    then show ?thesis
      using pop_mset(4) [of s] by (intro exI [of _ "hd (west_low s)"]) (simp add: pop_simps)
  qed
qed

lemma choose_keeps_track:
  "track_in_use (snd (choose_next_idx_full s)) = track_in_use s"
  by (auto simp: choose_next_idx_full_def bootstrap_rule_def balancing_rule_def
      normal_rule_def Let_def pop_east_high_def pop_east_low_def pop_west_high_def
      pop_west_low_def split: prod.splits)

lemma enqueue_mset:
  "mset (queued (train_enqueue t s))
     = add_mset \<lparr>idx = train_id t, ready_ns = ready_time_ns t\<rparr> (mset (queued s))"
  by (simp add: train_enqueue_def queued_def mset_queue_push)

lemma mset_add_set: "mset ys = add_mset m (mset xs) \<Longrightarrow> set ys = insert m (set xs)"
  by (metis set_mset_add_mset_insert set_mset_mset)

lemma distinct_idx_add:
  assumes "mset ys = add_mset m (mset xs)"
  shows "distinct (map idx ys) \<longleftrightarrow> idx m \<notin> idx ` set xs \<and> distinct (map idx xs)"
proof -
  have "mset (map idx ys) = mset (map idx (m # xs))"
    using assms by simp
  then have "distinct (map idx ys) \<longleftrightarrow> distinct (map idx (m # xs))"
    by (rule mset_eq_imp_distinct_iff)
  then show ?thesis
    by simp
qed

lemma system_invD:
  assumes "system_inv st"
  shows "length (pcs st) = length (trains st)"
    and "\<And>i. i < length (trains st) \<Longrightarrow> train_id (trains st ! i) = int i"
    and "waiting_ok st"
    and "distinct (map idx (queued (shared st)))"
    and "\<And>i. i < length (trains st) \<Longrightarrow> pcs st ! i = Loading \<Longrightarrow> \<not> my_turn (trains st ! i)"
    and "\<And>i. i < length (trains st) \<Longrightarrow> pcs st ! i = Crossing \<Longrightarrow> my_turn (trains st ! i)"
    and "track_ok st"
  using assms by (simp_all add: system_inv_def)

lemma waiting_okD:
  assumes "waiting_ok st" "m \<in> set (queued (shared st))"
  shows "0 \<le> idx m" "idx m < int (length (trains st))" "nat (idx m) < length (trains st)"
    "pcs st ! nat (idx m) = Waiting" "\<not> my_turn (trains st ! nat (idx m))"
  using assms by (auto simp: waiting_ok_def)

lemma track_ok_cong:
  assumes "length (trains st') = length (trains st)"
    and "track_in_use (shared st') = track_in_use (shared st)"
    and "\<And>j. j < length (trains st) \<Longrightarrow> holder st' j = holder st j"
    and "track_ok st"
  shows "track_ok st'"
proof (cases "track_in_use (shared st)")
  case True
  then obtain i where i: "i < length (trains st)" and h: "holder st i"
    and u: "\<And>j. j < length (trains st) \<Longrightarrow> holder st j \<Longrightarrow> j = i"
    using assms(4) unfolding track_ok_def by auto
  have h': "holder st' i"
    using assms(3) [OF i] h by blast
  have u': "j = i" if "j < length (trains st')" "holder st' j" for j
  proof -
    have j: "j < length (trains st)"
      using that(1) assms(1) by simp
    then have "holder st j"
      using assms(3) [OF j] that(2) by blast
    then show ?thesis
      using u [OF j] by blast
  qed
  have "\<exists>i < length (trains st'). holder st' i \<and>
      (\<forall>j < length (trains st'). holder st' j \<longrightarrow> j = i)"
    using i h' u' assms(1) by metis
  moreover have "track_in_use (shared st')"
    using True assms(2) by blast
  ultimately show ?thesis
    unfolding track_ok_def by (simp only: if_True)
next
  case False
  then have none: "\<And>j. j < length (trains st) \<Longrightarrow> \<not> holder st j"
    using assms(4) unfolding track_ok_def by simp
  have "\<not> holder st' j" if "j < length (trains st')" for j
  proof -
    have j: "j < length (trains st)"
      using that assms(1) by simp
    show ?thesis
      using assms(3) [OF j] none [OF j] by blast
  qed
  then have "\<forall>i < length (trains st'). \<not> holder st' i"
    by blast
  moreover have "\<not> track_in_use (shared st')"
    using False assms(2) by blast
  ultimately show ?thesis
    unfolding track_ok_def by (simp only: if_False)
qed

lemma inv_ready:
  assumes inv: "system_inv st" and i: "i < length (trains st)"
    and pc: "pcs st ! i = Loading" and t: "t = (trains st ! i)\<lparr>ready_time_ns := ns\<rparr>"
  shows "system_inv (st\<lparr>shared := train_enqueue t (shared st),
                        trains := (trains st)[i := t],
                        pcs := (pcs st)[i := Waiting]\<rparr>)"
proof -
  define st' where "st' = st\<lparr>shared := train_enqueue t (shared st),
      trains := (trains st)[i := t], pcs := (pcs st)[i := Waiting]\<rparr>"
  note D = system_invD [OF inv]
  have sel: "shared st' = train_enqueue t (shared st)" "trains st' = (trains st)[i := t]"
    "pcs st' = (pcs st)[i := Waiting]"
    by (simp_all add: st'_def)
  have tid: "train_id t = int i"
    using D(2) [OF i] by (simp add: t)
  have turn: "\<not> my_turn t"
    using D(5) [OF i pc] by (simp add: t)
  have stamp: "ready_time_ns t = ns"
    by (simp add: t)
  have q: "mset (queued (shared st')) = add_mset \<lparr>idx = int i, ready_ns = ns\<rparr> (mset (queued (shared st)))"
    by (simp only: sel enqueue_mset tid stamp)
  have fresh: "idx m \<noteq> int i" if "m \<in> set (queued (shared st))" for m
  proof
    assume "idx m = int i"
    then have "pcs st ! i = Waiting"
      using waiting_okD(4) [OF D(3) that] by simp
    then show False using pc by simp
  qed
  have w: "waiting_ok st'"
    unfolding waiting_ok_def
  proof
    fix m assume "m \<in> set (queued (shared st'))"
    then consider (new) "m = \<lparr>idx = int i, ready_ns = ns\<rparr>" | (old) "m \<in> set (queued (shared st))"
      using mset_add_set [OF q] by auto
    then show "0 \<le> idx m \<and> idx m < int (length (trains st')) \<and>
        pcs st' ! nat (idx m) = Waiting \<and> \<not> my_turn (trains st' ! nat (idx m))"
    proof cases
      case new
      then show ?thesis
        using i turn D(1) by (simp add: sel)
    next
      case old
      have "nat (idx m) \<noteq> i"
        using fresh [OF old] waiting_okD(1) [OF D(3) old] by auto
      then show ?thesis
        using waiting_okD [OF D(3) old] by (simp add: sel)
    qed
  qed
  have d: "distinct (map idx (queued (shared st')))"
    using distinct_idx_add [OF q] D(4) fresh by auto
  have hold: "holder st' j = holder st j" if "j < length (trains st)" for j
    using that D(5) [OF i pc] pc i D(1)
    by (cases "j = i") (auto simp: holder_def sel t)
  have "track_in_use (shared st') = track_in_use (shared st)"
    by (simp add: sel train_enqueue_def)
  then have tr: "track_ok st'"
    using D(7) hold by (intro track_ok_cong [of st' st]) (simp_all add: sel)
  have pm: "(pcs st' ! j = Loading \<longrightarrow> \<not> my_turn (trains st' ! j)) \<and>
      (pcs st' ! j = Crossing \<longrightarrow> my_turn (trains st' ! j))" if "j < length (trains st')" for j
    using that D(5) [of j] D(6) [of j] D(1) i
    by (cases "j = i") (auto simp: sel)
  have ids: "train_id (trains st' ! j) = int j" if "j < length (trains st')" for j
    using that D(2) [of j] tid by (cases "j = i") (auto simp: sel)
  have "system_inv st'"
    unfolding system_inv_def using D(1) ids w d pm tr by (simp add: sel)
  then show ?thesis
    by (simp add: st'_def)
qed

lemma inv_enter:
  assumes inv: "system_inv st" and i: "i < length (trains st)"
    and pc: "pcs st ! i = Waiting" and turn: "my_turn (trains st ! i)"
  shows "system_inv (st\<lparr>pcs := (pcs st)[i := Crossing]\<rparr>)"
proof -
  define st' where "st' = st\<lparr>pcs := (pcs st)[i := Crossing]\<rparr>"
  note D = system_invD [OF inv]
  have sel: "shared st' = shared st" "trains st' = trains st"
    "pcs st' = (pcs st)[i := Crossing]"
    by (simp_all add: st'_def)
  have w: "waiting_ok st'"
    unfolding waiting_ok_def
  proof
    fix m assume "m \<in> set (queued (shared st'))"
    then have old: "m \<in> set (queued (shared st))"
      by (simp add: sel)
    have "nat (idx m) \<noteq> i"
      using waiting_okD(5) [OF D(3) old] turn by auto
    then show "0 \<le> idx m \<and> idx m < int (length (trains st')) \<and>
        pcs st' ! nat (idx m) = Waiting \<and> \<not> my_turn (trains st' ! nat (idx m))"
      using waiting_okD [OF D(3) old] by (simp add: sel)
  qed
  have hold: "holder st' j = holder st j" if "j < length (trains st)" for j
    using that pc i D(1) by (cases "j = i") (auto simp: holder_def sel)
  have tr: "track_ok st'"
    using D(7) hold by (intro track_ok_cong [of st' st]) (simp_all add: sel)
  have pm: "(pcs st' ! j = Loading \<longrightarrow> \<not> my_turn (trains st' ! j)) \<and>
      (pcs st' ! j = Crossing \<longrightarrow> my_turn (trains st' ! j))" if "j < length (trains st')" for j
    using that D(5) [of j] D(6) [of j] D(1) i turn
    by (cases "j = i") (auto simp: sel)
  have "system_inv st'"
    unfolding system_inv_def using D(1) D(2) D(4) w pm tr by (simp add: sel)
  then show ?thesis
    by (simp add: st'_def)
qed

lemma queued_train_done: "queued (train_done d s) = queued s"
  by (simp add: train_done_def queued_def Let_def)

lemma inv_leave:
  assumes inv: "system_inv st" and i: "i < length (trains st)"
    and pc: "pcs st ! i = Crossing"
  shows "system_inv (st\<lparr>shared := train_done d (shared st),
                        pcs := (pcs st)[i := Finished]\<rparr>)"
proof -
  define st' where "st' = st\<lparr>shared := train_done d (shared st),
      pcs := (pcs st)[i := Finished]\<rparr>"
  note D = system_invD [OF inv]
  have sel: "shared st' = train_done d (shared st)" "trains st' = trains st"
    "pcs st' = (pcs st)[i := Finished]"
    by (simp_all add: st'_def)
  have w: "waiting_ok st'"
    unfolding waiting_ok_def
  proof
    fix m assume "m \<in> set (queued (shared st'))"
    then have old: "m \<in> set (queued (shared st))"
      by (simp add: sel queued_train_done)
    have "nat (idx m) \<noteq> i"
      using waiting_okD(4) [OF D(3) old] pc by auto
    then show "0 \<le> idx m \<and> idx m < int (length (trains st')) \<and>
        pcs st' ! nat (idx m) = Waiting \<and> \<not> my_turn (trains st' ! nat (idx m))"
      using waiting_okD [OF D(3) old] by (simp add: sel)
  qed
  have hi: "holder st i"
    using D(6) [OF i pc] pc by (simp add: holder_def)
  have only: "j = i" if "j < length (trains st)" "holder st j" for j
  proof (cases "track_in_use (shared st)")
    case True
    then obtain k where "k < length (trains st)" "holder st k"
      and u: "\<And>j. j < length (trains st) \<Longrightarrow> holder st j \<Longrightarrow> j = k"
      using D(7) unfolding track_ok_def by auto
    have "i = k"
      using u [OF i hi] .
    moreover have "j = k"
      using u [OF that] .
    ultimately show ?thesis
      by (rule ssubst)
  next
    case False
    then show ?thesis
      using D(7) i hi unfolding track_ok_def by auto
  qed
  have none: "\<not> holder st' j" if "j < length (trains st')" for j
  proof (cases "j = i")
    case True
    then show ?thesis
      using i D(1) by (simp add: holder_def sel)
  next
    case False
    then have "\<not> holder st j"
      using only [of j] that by (auto simp: sel)
    then show ?thesis
      using False by (simp add: holder_def sel)
  qed
  have "\<not> track_in_use (shared st')"
    by (simp add: sel train_done_def Let_def)
  then have tr: "track_ok st'"
    unfolding track_ok_def using none by simp
  have pm: "(pcs st' ! j = Loading \<longrightarrow> \<not> my_turn (trains st' ! j)) \<and>
      (pcs st' ! j = Crossing \<longrightarrow> my_turn (trains st' ! j))" if "j < length (trains st')" for j
    using that D(5) [of j] D(6) [of j] D(1) i
    by (cases "j = i") (auto simp: sel)
  have "system_inv st'"
    unfolding system_inv_def using D(1) D(2) D(4) w pm tr
    by (simp add: sel queued_train_done)
  then show ?thesis
    by (simp add: st'_def)
qed

lemma waiting_ids_valid:
  "waiting_ok st \<Longrightarrow> ids_valid (int (length (trains st))) (shared st)"
  by (simp add: waiting_ok_def ids_valid_def list_all_iff)

text \<open>What a pass of the dispatcher that selects has found and done.\<close>

lemma dispatcher_grant:
  assumes "dispatcher_main_step n s = Grant k s'"
  shows "any_ready s" "\<not> track_in_use s" "k = fst (choose_next_idx_full s)" "0 \<le> k"
    "s' = (snd (choose_next_idx_full s))\<lparr>track_in_use := True\<rparr>"
  using assms
  by (auto simp: dispatcher_main_step_def split: if_splits prod.splits)

lemma dispatcher_no_selection:
  assumes "dispatcher_main_step n s = No_selection s'"
  shows "any_ready s" "fst (choose_next_idx_full s) < 0"
  using assms
  by (auto simp: dispatcher_main_step_def split: if_splits prod.splits)

lemma inv_dispatch:
  assumes inv: "system_inv st"
    and g: "dispatcher_main_step (int (length (trains st))) (shared st) = Grant k s'"
  shows "system_inv (st\<lparr>shared := s',
             trains := (trains st)[nat k := (trains st ! nat k)\<lparr>my_turn := True\<rparr>]\<rparr>)"
    and "k < int (length (trains st))"
proof -
  define st' where "st' = st\<lparr>shared := s',
      trains := (trains st)[nat k := (trains st ! nat k)\<lparr>my_turn := True\<rparr>]\<rparr>"
  define s0 where "s0 = snd (choose_next_idx_full (shared st))"
  note D = system_invD [OF inv]
  note G = dispatcher_grant [OF g]
  have sel: "shared st' = s'" "pcs st' = pcs st"
    "trains st' = (trains st)[nat k := (trains st ! nat k)\<lparr>my_turn := True\<rparr>]"
    by (simp_all add: st'_def)
  have s': "s' = s0\<lparr>track_in_use := True\<rparr>"
    using G(5) by (simp add: s0_def)
  have qs': "queued s' = queued s0"
    by (simp add: s' queued_def)
  obtain m where q: "mset (queued (shared st)) = add_mset m (mset (queued s0))"
    and mk: "idx m = k"
    using choose_pops_one [OF waiting_ids_valid [OF D(3)] G(1)] G(3) s0_def by auto
  have m_in: "m \<in> set (queued (shared st))"
    using mset_add_set [OF q] by simp
  have sub: "x \<in> set (queued (shared st))" if "x \<in> set (queued s0)" for x
    using mset_add_set [OF q] that by simp
  note M = waiting_okD [OF D(3) m_in]
  have k: "nat k < length (trains st)"
    using M(3) mk by simp
  show "k < int (length (trains st))"
    using M(2) mk by simp
  have dist: "idx m \<notin> idx ` set (queued s0)" "distinct (map idx (queued s0))"
    using distinct_idx_add [OF q] D(4) by simp_all
  have other: "nat (idx x) \<noteq> nat k" if "x \<in> set (queued s0)" for x
  proof -
    have "idx x \<in> idx ` set (queued s0)"
      using that by (rule imageI)
    then have "idx x \<noteq> k"
      using dist(1) mk by metis
    then show ?thesis
      using waiting_okD(1) [OF D(3) sub [OF that]] G(4) by simp
  qed
  have w: "waiting_ok st'"
    unfolding waiting_ok_def
  proof
    fix x assume "x \<in> set (queued (shared st'))"
    then have x: "x \<in> set (queued s0)"
      by (simp add: sel qs')
    show "0 \<le> idx x \<and> idx x < int (length (trains st')) \<and>
        pcs st' ! nat (idx x) = Waiting \<and> \<not> my_turn (trains st' ! nat (idx x))"
      using waiting_okD [OF D(3) sub [OF x]] other [OF x] by (simp add: sel)
  qed
  have none: "\<not> holder st j" if "j < length (trains st)" for j
    using D(7) G(2) that unfolding track_ok_def by simp
  have hk: "holder st' (nat k)"
    using k M(4) mk D(1) by (simp add: holder_def sel)
  have only: "j = nat k" if "j < length (trains st')" "holder st' j" for j
  proof (rule ccontr)
    assume "j \<noteq> nat k"
    then have "holder st j"
      using that by (simp add: holder_def sel)
    then show False
      using none [of j] that(1) by (simp add: sel)
  qed
  have k': "nat k < length (trains st')"
    using k by (simp add: sel)
  have all: "\<forall>j < length (trains st'). holder st' j \<longrightarrow> j = nat k"
    using only by blast
  have one: "\<exists>i < length (trains st'). holder st' i \<and>
      (\<forall>j < length (trains st'). holder st' j \<longrightarrow> j = i)"
    using k' hk all by blast
  have "track_in_use (shared st')"
    by (simp add: sel s')
  with one have tr: "track_ok st'"
    unfolding track_ok_def by (simp only: if_True)
  have pm: "(pcs st' ! j = Loading \<longrightarrow> \<not> my_turn (trains st' ! j)) \<and>
      (pcs st' ! j = Crossing \<longrightarrow> my_turn (trains st' ! j))" if "j < length (trains st')" for j
    using that D(5) [of j] D(6) [of j] M(4) mk k
    by (cases "j = nat k") (auto simp: sel)
  have ids: "train_id (trains st' ! j) = int j" if "j < length (trains st')" for j
    using that D(2) [of j] by (cases "j = nat k") (auto simp: sel)
  have "system_inv st'"
    unfolding system_inv_def using D(1) ids w dist(2) pm tr by (simp add: sel qs')
  then show "system_inv (st\<lparr>shared := s',
             trains := (trains st)[nat k := (trains st ! nat k)\<lparr>my_turn := True\<rparr>]\<rparr>)"
    by (simp add: st'_def)
qed

lemma inv_no_selection:
  assumes inv: "system_inv st"
    and g: "dispatcher_main_step (int (length (trains st))) (shared st) = No_selection s'"
  shows False
proof -
  note D = system_invD [OF inv]
  note G = dispatcher_no_selection [OF g]
  obtain m where q: "mset (queued (shared st))
      = add_mset m (mset (queued (snd (choose_next_idx_full (shared st)))))"
    and mk: "idx m = fst (choose_next_idx_full (shared st))"
    using choose_pops_one [OF waiting_ids_valid [OF D(3)] G(1)] by auto
  have "m \<in> set (queued (shared st))"
    using mset_add_set [OF q] by simp
  then have "0 \<le> idx m"
    using waiting_okD(1) [OF D(3)] by simp
  then show False
    using mk G(2) by simp
qed

lemma inv_initial:
  assumes "roster_ok ts"
  shows "system_inv (initial_system ts)"
proof -
  have "\<not> holder (initial_system ts) i" if "i < length ts" for i
    using assms that by (simp add: holder_def initial_system_def roster_ok_def)
  then have "track_ok (initial_system ts)"
    by (simp add: track_ok_def initial_system_def initial_sched_def)
  moreover have "waiting_ok (initial_system ts)"
    by (simp add: waiting_ok_def initial_system_def initial_sched_def queued_def)
  ultimately show ?thesis
    using assms
    by (simp add: system_inv_def initial_system_def initial_sched_def queued_def
        roster_ok_def)
qed

lemma step_inv:
  assumes "step st st'" "system_inv st"
  shows "system_inv st' \<and> length (trains st') = length (trains st)"
  using assms
proof (cases rule: step.cases)
  case (ready i t ns)
  then show ?thesis
    using inv_ready [OF assms(2), of i t ns] by simp
next
  case (enter i)
  then show ?thesis
    using inv_enter [OF assms(2), of i] by simp
next
  case (leave i)
  then show ?thesis
    using inv_leave [OF assms(2), of i] by simp
next
  case (dispatch k s')
  then show ?thesis
    using inv_dispatch(1) [OF assms(2), of k s'] by simp
next
  case (no_selection s')
  then show ?thesis
    using inv_no_selection [OF assms(2)] by blast
qed

lemma reachable_inv:
  assumes "reachable ts st" "roster_ok ts"
  shows "system_inv st \<and> length (trains st) = length ts"
  using assms
proof (induction rule: reachable.induct)
  case (start ts)
  then show ?case
    by (simp add: inv_initial) (simp add: initial_system_def)
next
  case (next_step ts st st')
  then show ?case
    using step_inv [of st st'] by simp
qed

lemma parse_lines_roster:
  "parse_lines lines n cnt acc = Inr ts \<Longrightarrow> n = int (length acc) \<Longrightarrow> roster_ok acc \<Longrightarrow>
   roster_ok ts"
proof (induction lines arbitrary: n acc)
  case Nil
  then show ?case by simp
next
  case (Cons buf rest)
  show ?case
  proof (cases "n < cnt")
    case False
    then show ?thesis using Cons.prems by simp
  next
    case True
    then obtain t where t: "parse_line buf n = Some t"
      and rec: "parse_lines rest (n + 1) cnt (acc @ [t]) = Inr ts"
      using Cons.prems(1) by (auto split: option.splits)
    have "train_id t = n \<and> \<not> my_turn t"
      using t unfolding parse_line_Some_iff by auto
    then have "roster_ok (acc @ [t])"
      using Cons.prems(2,3) by (auto simp: roster_ok_def nth_append)
    moreover have "n + 1 = int (length (acc @ [t]))"
      using Cons.prems(2) by simp
    ultimately show ?thesis
      using Cons.IH [OF rec] by blast
  qed
qed

lemma load_roster_ok:
  assumes "load_trains inp c = Inr ts"
  shows "roster_ok ts"
proof (cases inp)
  case None
  then show ?thesis using assms by (simp add: load_trains_def)
next
  case (Some lines)
  show ?thesis
  proof (cases "count_lines lines = 0")
    case True
    then have "ts = []"
      using assms Some by (simp add: load_trains_def)
    then show ?thesis by (simp add: roster_ok_def)
  next
    case False
    then have "parse_lines lines 0 (count_lines lines) [] = Inr ts"
      using assms Some by (simp add: load_trains_def split: if_splits)
    then show ?thesis
      by (rule parse_lines_roster) (simp_all add: roster_ok_def)
  qed
qed

text \<open>
  Claim C1. In every state that a run reaches from a roster that \<^verbatim>\<open>load_trains\<close>
  has loaded, whatever the interleaving of the threads and whatever the ready times: at
  most one train is at \<open>Crossing\<close>; a train at \<open>Crossing\<close> holds the track and
  \<^verbatim>\<open>track_in_use\<close> is set; whenever \<^verbatim>\<open>track_in_use\<close> is set exactly one train
  holds the track; and a pass of the dispatcher that grants the track starts with
  \<^verbatim>\<open>track_in_use\<close> clear and grants it to a train of the roster.
\<close>

theorem mutual_exclusion:
  assumes "load_trains inp c = Inr ts" and "reachable ts st"
  shows "(\<forall>i < length ts. \<forall>j < length ts.
            pcs st ! i = Crossing \<and> pcs st ! j = Crossing \<longrightarrow> i = j) \<and>
     (\<forall>i < length ts. pcs st ! i = Crossing \<longrightarrow> holder st i \<and> track_in_use (shared st)) \<and>
     (track_in_use (shared st) \<longrightarrow>
        (\<exists>i < length ts. holder st i \<and> (\<forall>j < length ts. holder st j \<longrightarrow> j = i))) \<and>
     (\<forall>k s'. dispatcher_main_step (int (length ts)) (shared st) = Grant k s' \<longrightarrow>
        \<not> track_in_use (shared st) \<and> 0 \<le> k \<and> k < int (length ts))"
proof -
  have inv: "system_inv st" and len: "length (trains st) = length ts"
    using reachable_inv [OF assms(2) load_roster_ok [OF assms(1)]] by simp_all
  note D = system_invD [OF inv]
  have uniq: "track_in_use (shared st) \<Longrightarrow>
      \<exists>i < length ts. holder st i \<and> (\<forall>j < length ts. holder st j \<longrightarrow> j = i)"
    using D(7) unfolding track_ok_def len by simp
  have free: "\<not> track_in_use (shared st) \<Longrightarrow> i < length ts \<Longrightarrow> \<not> holder st i" for i
    using D(7) unfolding track_ok_def len by simp
  have crossing: "holder st i \<and> track_in_use (shared st)"
    if "i < length ts" "pcs st ! i = Crossing" for i
  proof -
    have h: "holder st i"
      using D(6) [of i] that len by (simp add: holder_def)
    then show ?thesis
      using free [of i] that(1) by blast
  qed
  have one: "i = j"
    if i: "i < length ts" and j: "j < length ts"
      and ci: "pcs st ! i = Crossing" and cj: "pcs st ! j = Crossing" for i j
  proof -
    obtain k where k: "\<forall>l < length ts. holder st l \<longrightarrow> l = k"
      using uniq crossing [OF i ci] by blast
    have "i = k"
      using k i crossing [OF i ci] by blast
    moreover have "j = k"
      using k j crossing [OF j cj] by blast
    ultimately show ?thesis
      by blast
  qed
  have grant: "\<not> track_in_use (shared st) \<and> 0 \<le> k \<and> k < int (length ts)"
    if "dispatcher_main_step (int (length ts)) (shared st) = Grant k s'" for k s'
  proof -
    have g: "dispatcher_main_step (int (length (trains st))) (shared st) = Grant k s'"
      using that by (simp only: len)
    show ?thesis
      using dispatcher_grant(2,4) [OF g] inv_dispatch(2) [OF inv g] by (simp only: len) blast
  qed
  show ?thesis
    using one crossing uniq grant by blast
qed

theorem mutual_exclusion_witness:
  "load_trains (Some [''E 1 1\<newline>'']) True = Inr [train_zero] \<and>
   reachable [train_zero] crossing_system \<and>
   pcs crossing_system ! 0 = Crossing \<and>
   holder crossing_system 0 \<and> track_in_use (shared crossing_system)"
proof -
  let ?t = "train_zero\<lparr>ready_time_ns := 5\<rparr>"
  let ?s0 = "initial_system [train_zero]"
  let ?s1 = "\<lparr>shared = initial_sched\<lparr>east_high := [\<lparr>idx = 0, ready_ns = 5\<rparr>]\<rparr>,
      trains = [?t], pcs = [Waiting]\<rparr>"
  let ?s2 = "\<lparr>shared = initial_sched\<lparr>track_in_use := True\<rparr>,
      trains = [?t\<lparr>my_turn := True\<rparr>], pcs = [Waiting]\<rparr>"
  have load: "load_trains (Some [''E 1 1\<newline>'']) True = Inr [train_zero]"
    by (simp add: load_trains_def count_lines_def blank_line_def
        train_zero_def scan_defs)
  have "step ?s0 (?s0\<lparr>shared := train_enqueue ?t (shared ?s0),
      trains := (trains ?s0)[0 := ?t], pcs := (pcs ?s0)[0 := Waiting]\<rparr>)"
    by (rule step.ready) (simp_all add: initial_system_def)
  then have s1: "step ?s0 ?s1"
    by (simp add: initial_system_def train_enqueue_def train_zero_def initial_sched_def)
  have g: "dispatcher_main_step (int (length (trains ?s1))) (shared ?s1)
      = Grant 0 (initial_sched\<lparr>track_in_use := True\<rparr>)"
    by (simp add: dispatcher_main_step_def any_ready_def initial_sched_def
        choose_next_idx_full_def bootstrap_rule_def balancing_rule_def normal_rule_def
        choose_from_pair_def)
  have "step ?s1 (?s1\<lparr>shared := initial_sched\<lparr>track_in_use := True\<rparr>,
      trains := (trains ?s1)[nat 0 := (trains ?s1 ! nat 0)\<lparr>my_turn := True\<rparr>]\<rparr>)"
    using g by (rule step.dispatch)
  then have s2: "step ?s1 ?s2"
    by simp
  have "step ?s2 (?s2\<lparr>pcs := (pcs ?s2)[0 := Crossing]\<rparr>)"
    by (rule step.enter) simp_all
  then have s3: "step ?s2 crossing_system"
    by (simp add: crossing_system_def)
  have reach: "reachable [train_zero] crossing_system"
    using reachable.start [of "[train_zero]"] s1 s2 s3 by (blast intro: reachable.next_step)
  have cr: "pcs crossing_system ! 0 = Crossing"
    by (simp add: crossing_system_def)
  show ?thesis
    using load reach cr mutual_exclusion [OF load reach] by simp
qed

subsection \<open>The scheduler states of a run\<close>

lemma sorted_enqueue: "queues_sorted s \<Longrightarrow> queues_sorted (train_enqueue t s)"
  by (simp add: queues_sorted_def train_enqueue_def sorted_queue_push)

lemma sorted_train_done: "queues_sorted (train_done d s) = queues_sorted s"
  by (simp add: queues_sorted_def train_done_def Let_def)

lemma sorted_choose:
  assumes "ids_valid n s" "any_ready s" "queues_sorted s"
  shows "queues_sorted (snd (choose_next_idx_full s))"
proof -
  consider (eh) "east_high s \<noteq> []" "choose_next_idx_full s = pop_east_high s"
    | (el) "east_low s \<noteq> []" "choose_next_idx_full s = pop_east_low s"
    | (wh) "west_high s \<noteq> []" "choose_next_idx_full s = pop_west_high s"
    | (wl) "west_low s \<noteq> []" "choose_next_idx_full s = pop_west_low s"
    using choose_is_pop [OF assms(1,2)] by blast
  then show ?thesis
    using assms(3)
    by cases (simp_all add: pop_simps queues_sorted_def sorted_tail)
qed

lemma step_sorted:
  assumes "step st st'" "system_inv st" "queues_sorted (shared st)"
  shows "queues_sorted (shared st')"
  using assms(1)
proof (cases rule: step.cases)
  case (ready i t ns)
  then show ?thesis
    using assms(3) by (simp add: sorted_enqueue)
next
  case (enter i)
  then show ?thesis
    using assms(3) by simp
next
  case (leave i)
  then show ?thesis
    using assms(3) by (simp add: sorted_train_done)
next
  case (dispatch k s')
  note G = dispatcher_grant [OF dispatch(2)]
  have "queues_sorted (snd (choose_next_idx_full (shared st)))"
    using sorted_choose [OF waiting_ids_valid [OF system_invD(3) [OF assms(2)]] G(1) assms(3)] .
  then show ?thesis
    using dispatch(1) G(5) by (simp add: queues_sorted_def)
next
  case (no_selection s')
  then show ?thesis
    using inv_no_selection [OF assms(2)] by blast
qed

text \<open>
  The scheduler states of a run are well formed: the queued indexes are indexes of
  trains, no index is queued twice, and every queue is in ascending order of
  (time stamp, index). These are the assumptions made on a scheduler state above.
\<close>

theorem reachable_queues_well_formed:
  assumes "reachable ts st" and "load_trains inp c = Inr ts"
  shows "ids_valid (int (length ts)) (shared st) \<and>
     distinct (map idx (queued (shared st))) \<and> queues_sorted (shared st)"
proof -
  have r: "roster_ok ts"
    using assms(2) by (rule load_roster_ok)
  have "queues_sorted (shared st)"
    using assms(1) r
  proof (induction rule: reachable.induct)
    case (start ts)
    show ?case
      by (simp add: initial_system_def initial_sched_def queues_sorted_def queue_sorted_def)
  next
    case (next_step ts st st')
    then show ?case
      using step_sorted [of st st'] reachable_inv [of ts st] by blast
  qed
  moreover have "system_inv st" "length (trains st) = length ts"
    using reachable_inv [OF assms(1) r] by simp_all
  ultimately show ?thesis
    using waiting_ids_valid [of st] system_invD(3,4) [of st] by simp
qed

theorem reachable_queues_well_formed_witness:
  "reachable [train_zero] waiting_system \<and>
   load_trains (Some [''E 1 1\<newline>'']) True = Inr [train_zero] \<and>
   queued (shared waiting_system) = [\<lparr>idx = 0, ready_ns = 5\<rparr>] \<and>
   ids_valid 1 (shared waiting_system) \<and> queues_sorted (shared waiting_system)"
proof -
  let ?t = "train_zero\<lparr>ready_time_ns := 5\<rparr>"
  let ?s0 = "initial_system [train_zero]"
  have load: "load_trains (Some [''E 1 1\<newline>'']) True = Inr [train_zero]"
    by (simp add: load_trains_def count_lines_def blank_line_def train_zero_def scan_defs)
  have "step ?s0 (?s0\<lparr>shared := train_enqueue ?t (shared ?s0),
      trains := (trains ?s0)[0 := ?t], pcs := (pcs ?s0)[0 := Waiting]\<rparr>)"
    by (rule step.ready) (simp_all add: initial_system_def)
  then have "step ?s0 waiting_system"
    by (simp add: initial_system_def train_enqueue_def train_zero_def initial_sched_def
        waiting_system_def)
  then have reach: "reachable [train_zero] waiting_system"
    using reachable.start [of "[train_zero]"] by (blast intro: reachable.next_step)
  have q: "queued (shared waiting_system) = [\<lparr>idx = 0, ready_ns = 5\<rparr>]"
    by (simp add: waiting_system_def queued_def initial_sched_def)
  show ?thesis
    using reach load q reachable_queues_well_formed [OF reach load] by simp
qed

end
